theory Spec2Isabelle
  imports Main "HOL-Library.Word" "HOL-Library.Code_Target_Numeral"
begin

section \<open>Memory model\<close>

text \<open>
  The container of \<^verbatim>\<open>list.h\<close> manages raw storage by hand: it allocates blocks,
  constructs elements in place, destroys them and frees the blocks. The embedding keeps
  that level: a heap of blocks, a block being a list of slots, a slot being either raw
  memory (\<open>None\<close>) or a constructed element (\<open>Some v\<close>). A block that was freed is no
  longer in the heap, so an access through a pointer into it is out of block. Every access the C++ standard
  leaves undefined (null or out-of-block access, reading or destroying raw memory) is a
  fault value, and so is constructing over an element that is still alive, which breaks
  the container's own discipline of one constructed instance per element.

  \<^verbatim>\<open>size_t\<close> is a 64-bit word; pointers are a block address and an offset.
\<close>

type_synonym size_t = "64 word"
type_synonym addr = nat

datatype ptr = nullptr | Ptr addr nat

datatype fault = NullDeref | OutOfBlock | Uninitialised | AlreadyLive | BadFree

datatype error = bad_alloc | out_of_range size_t | assert_failed | ctor_exception | UB fault

text \<open>
  The allocator is outside the repository (\<^verbatim>\<open>std::allocator\<close> by default). Its model:
  \<open>allocate n\<close> hands out a fresh block of \<open>n\<close> raw slots and throws \<^verbatim>\<open>bad_alloc\<close>
  when fewer than \<open>n\<close> slots are available; \<open>deallocate p n\<close> gives the block back and
  accepts the null pointer (as \<^verbatim>\<open>operator delete\<close> does).
\<close>

record 'a heap =
  blocks :: "addr \<Rightarrow> 'a option list option"
  next_addr :: addr
  avail :: nat

definition heap_ok :: "'a heap \<Rightarrow> bool" where
  "heap_ok h \<longleftrightarrow> (\<forall>a. next_addr h \<le> a \<longrightarrow> blocks h a = None)"

fun ptr_add :: "ptr \<Rightarrow> nat \<Rightarrow> ptr" where
  "ptr_add nullptr n = nullptr"
| "ptr_add (Ptr a i) n = Ptr a (i + n)"

fun ptr_less :: "ptr \<Rightarrow> ptr \<Rightarrow> bool" where
  "ptr_less (Ptr a i) (Ptr b j) = (a = b \<and> i < j)"
| "ptr_less _ _ = False"

fun ptr_diff :: "ptr \<Rightarrow> ptr \<Rightarrow> int" where
  "ptr_diff (Ptr a i) (Ptr b j) = int i - int j"
| "ptr_diff _ _ = 0"

definition allocate :: "nat \<Rightarrow> 'a heap \<Rightarrow> error + (ptr \<times> 'a heap)" where
  "allocate n h =
     (if n \<le> avail h
      then Inr (Ptr (next_addr h) 0,
                h\<lparr>blocks := (blocks h)(next_addr h \<mapsto> replicate n None),
                  next_addr := Suc (next_addr h),
                  avail := avail h - n\<rparr>)
      else Inl bad_alloc)"

definition deallocate :: "ptr \<Rightarrow> nat \<Rightarrow> 'a heap \<Rightarrow> error + 'a heap" where
  "deallocate p n h =
     (case p of
        nullptr \<Rightarrow> Inr h
      | Ptr a i \<Rightarrow>
          (case blocks h a of
             None \<Rightarrow> Inl (UB BadFree)
           | Some s \<Rightarrow>
               if i = 0 \<and> length s = n
               then Inr (h\<lparr>blocks := (blocks h)(a := None), avail := avail h + n\<rparr>)
               else Inl (UB BadFree)))"

definition slot_at :: "'a heap \<Rightarrow> ptr \<Rightarrow> error + 'a option" where
  "slot_at h p =
     (case p of
        nullptr \<Rightarrow> Inl (UB NullDeref)
      | Ptr a i \<Rightarrow>
          (case blocks h a of
             None \<Rightarrow> Inl (UB OutOfBlock)
           | Some s \<Rightarrow> if i < length s then Inr (s ! i) else Inl (UB OutOfBlock)))"

definition set_block :: "addr \<Rightarrow> 'a option list \<Rightarrow> 'a heap \<Rightarrow> 'a heap" where
  "set_block a s h = h\<lparr>blocks := (blocks h)(a \<mapsto> s)\<rparr>"

definition put_slot :: "'a heap \<Rightarrow> ptr \<Rightarrow> 'a option \<Rightarrow> 'a heap" where
  "put_slot h p x =
     (case p of
        nullptr \<Rightarrow> h
      | Ptr a i \<Rightarrow>
          (case blocks h a of
             None \<Rightarrow> h
           | Some s \<Rightarrow> set_block a (s[i := x]) h))"

text \<open>Reading \<^verbatim>\<open>*p\<close>.\<close>

definition load :: "ptr \<Rightarrow> 'a heap \<Rightarrow> error + 'a" where
  "load p h =
     (case slot_at h p of
        Inl e \<Rightarrow> Inl e
      | Inr None \<Rightarrow> Inl (UB Uninitialised)
      | Inr (Some v) \<Rightarrow> Inr v)"

text \<open>
  Placement new, \<^verbatim>\<open>new (p) T(v)\<close>, of a copy of the value \<open>v\<close>. Copying an element that
  the container holds is taken not to throw; the constructor that \<^verbatim>\<open>Add\<close> runs on its
  arguments may throw (see \<open>Add\<close>).
\<close>

definition construct :: "ptr \<Rightarrow> 'a \<Rightarrow> 'a heap \<Rightarrow> error + 'a heap" where
  "construct p v h =
     (case slot_at h p of
        Inl e \<Rightarrow> Inl e
      | Inr (Some _) \<Rightarrow> Inl (UB AlreadyLive)
      | Inr None \<Rightarrow> Inr (put_slot h p (Some v)))"

text \<open>The destructor call \<^verbatim>\<open>p->~T()\<close>: the slot is raw memory afterwards.\<close>

definition destroy :: "ptr \<Rightarrow> 'a heap \<Rightarrow> error + 'a heap" where
  "destroy p h =
     (case slot_at h p of
        Inl e \<Rightarrow> Inl e
      | Inr None \<Rightarrow> Inl (UB Uninitialised)
      | Inr (Some _) \<Rightarrow> Inr (put_slot h p None))"

text \<open>
  Assignment to a live element, \<^verbatim>\<open>*p = std::move(*q)\<close>. The moved-from element stays
  constructed; its value is unspecified in C++ and the model leaves the old value there.
  No operation of the container reads a moved-from element before destroying it.
\<close>

definition assign :: "ptr \<Rightarrow> 'a \<Rightarrow> 'a heap \<Rightarrow> error + 'a heap" where
  "assign p v h =
     (case slot_at h p of
        Inl e \<Rightarrow> Inl e
      | Inr None \<Rightarrow> Inl (UB Uninitialised)
      | Inr (Some _) \<Rightarrow> Inr (put_slot h p (Some v)))"

section \<open>The container\<close>

record 'al List =
  data :: ptr
  capacity :: size_t
  count :: size_t
  dataAllocator :: 'al

text \<open>
  A method is a function of the object's fields and the heap; it returns its result or the
  exception thrown, and the fields and the heap as it leaves them.
\<close>

type_synonym ('a, 'al, 'r) memfun =
  "'al List \<Rightarrow> 'a heap \<Rightarrow> (error + 'r) \<times> 'al List \<times> 'a heap"

definition List_new :: "'al \<Rightarrow> 'al List" where
  "List_new alloc = \<lparr>data = nullptr, capacity = 0, count = 0, dataAllocator = alloc\<rparr>"

definition Capacity :: "'al List \<Rightarrow> size_t" where
  "Capacity l = capacity l"

definition Count :: "'al List \<Rightarrow> size_t" where
  "Count l = count l"

text \<open>\<^verbatim>\<open>begin()\<close> and \<^verbatim>\<open>end()\<close>.\<close>

definition begin_ptr :: "'al List \<Rightarrow> ptr" where
  "begin_ptr l = data l"

definition end_ptr :: "'al List \<Rightarrow> ptr" where
  "end_ptr l = ptr_add (data l) (unat (count l))"

text \<open>The unchecked \<^verbatim>\<open>operator[]\<close>, read.\<close>

definition subscript :: "'al List \<Rightarrow> 'a heap \<Rightarrow> size_t \<Rightarrow> error + 'a" where
  "subscript l h i = load (ptr_add (data l) (unat i)) h"

text \<open>
  A parameter of type \<^verbatim>\<open>const T&\<close> or \<^verbatim>\<open>T&&\<close> is a reference. It is bound either to an
  object outside the storage of the lists (a literal, a temporary, a variable), whose value
  stays what it is during the call, or to the object in a slot of a block, which the callee
  reads through the heap at the moment it uses the reference. \<^verbatim>\<open>operator[]\<close> returns
  such a reference to a slot.
\<close>

datatype 'a cref = Object 'a | Slot ptr

definition deref :: "'a cref \<Rightarrow> 'a heap \<Rightarrow> error + 'a" where
  "deref r h = (case r of Object v \<Rightarrow> Inr v | Slot p \<Rightarrow> load p h)"

definition subscript_ref :: "'al List \<Rightarrow> size_t \<Rightarrow> 'a cref" where
  "subscript_ref l i = Slot (ptr_add (data l) (unat i))"

text \<open>
  The arguments of \<^verbatim>\<open>Add\<close>, forwarded to the constructor of \<^verbatim>\<open>T\<close>: \<open>Build r\<close> is a
  reference \<open>r\<close> to a \<^verbatim>\<open>T\<close>, which the constructor copies when it runs; with
  \<open>r = Object v\<close> it also stands for any arguments that refer to no storage of a list and
  from which the constructor builds \<open>v\<close>. \<open>Throw\<close> stands for arguments on which the
  constructor throws.
\<close>

datatype 'a ctor_args = Build "'a cref" | Throw

text \<open>
  A predicate is a callable: it is given the element and may read memory, as the lambda
  of \<^verbatim>\<open>Remove\<close> does, which captures its argument by reference. \<open>on_element P\<close> is a
  predicate that is a function \<open>P\<close> of the element alone.
\<close>

type_synonym 'a predicate = "'a heap \<Rightarrow> 'a \<Rightarrow> error + bool"

definition on_element :: "('a \<Rightarrow> bool) \<Rightarrow> 'a predicate" where
  "on_element P h e = Inr (P e)"


section \<open>Storage management\<close>

text \<open>
  The loops of the source that walk a pair of pointers until \<^verbatim>\<open>src != end\<close> fails
  stop in the model, at the latest, with a fault when the pointer leaves its block; the
  slots left in the block bound them.
\<close>

definition room :: "'a heap \<Rightarrow> ptr \<Rightarrow> nat" where
  "room h p =
     (case p of
        nullptr \<Rightarrow> 0
      | Ptr a i \<Rightarrow> (case blocks h a of None \<Rightarrow> 0 | Some s \<Rightarrow> length s - i))"

lemma room_put_slot: "room (put_slot h p x) q = room h q"
  by (auto simp: room_def put_slot_def set_block_def split: ptr.splits option.splits)

lemma room_construct: "construct p v h = Inr h' \<Longrightarrow> room h' q = room h q"
  by (auto simp: construct_def room_put_slot split: sum.splits option.splits)

lemma room_destroy: "destroy p h = Inr h' \<Longrightarrow> room h' q = room h q"
  by (auto simp: destroy_def room_put_slot split: sum.splits option.splits)

lemma room_assign: "assign p v h = Inr h' \<Longrightarrow> room h' q = room h q"
  by (auto simp: assign_def room_put_slot split: sum.splits option.splits)

lemma room_load: "load p h = Inr v \<Longrightarrow> room h (ptr_add p 1) < room h p"
  by (auto simp: load_def slot_at_def room_def
           split: ptr.splits option.splits sum.splits if_splits)

text \<open>\<^verbatim>\<open>Clear\<close>: \<^verbatim>\<open>for (size_t i = 0; i < count; i++) data[i].~T(); count = 0;\<close>\<close>

function Clear_loop :: "ptr \<Rightarrow> nat \<Rightarrow> nat \<Rightarrow> 'a heap \<Rightarrow> (error + unit) \<times> 'a heap" where
  "Clear_loop d i n h =
     (if i < n
      then (case destroy (ptr_add d i) h of
              Inl e \<Rightarrow> (Inl e, h)
            | Inr h' \<Rightarrow> Clear_loop d (i + 1) n h')
      else (Inr (), h))"
  by pat_completeness auto
termination
  by (relation "measure (\<lambda>(d, i, n, h). n - i)") auto

definition Clear :: "('a, 'al, unit) memfun" where
  "Clear l h =
     (case Clear_loop (data l) 0 (unat (count l)) h of
        (Inl e, h') \<Rightarrow> (Inl e, l, h')
      | (Inr _, h') \<Rightarrow> (Inr (), l\<lparr>count := 0\<rparr>, h'))"

text \<open>
  \<^verbatim>\<open>Resize\<close>: allocate the new block, then for each live element copy-construct it at
  its new place and destroy the old one, then free the old block. The \<^verbatim>\<open>assert\<close> is
  the one of a debug build.
\<close>

function Resize_loop :: "ptr \<Rightarrow> ptr \<Rightarrow> ptr \<Rightarrow> 'a heap \<Rightarrow> (error + unit) \<times> 'a heap" where
  "Resize_loop dest src end h =
     (if src \<noteq> end
      then (case load src h of
              Inl e \<Rightarrow> (Inl e, h)
            | Inr v \<Rightarrow>
                (case construct dest v h of
                   Inl e \<Rightarrow> (Inl e, h)
                 | Inr h1 \<Rightarrow>
                     (case destroy src h1 of
                        Inl e \<Rightarrow> (Inl e, h1)
                      | Inr h2 \<Rightarrow> Resize_loop (ptr_add dest 1) (ptr_add src 1) end h2)))
      else (Inr (), h))"
  by pat_completeness auto
termination
  by (relation "measure (\<lambda>(dest, src, end, h). room h src)")
     (auto simp: room_construct room_destroy dest: room_load)

definition Resize :: "size_t \<Rightarrow> ('a, 'al, unit) memfun" where
  "Resize new_capacity l h =
     (if new_capacity < count l then (Inl assert_failed, l, h)
      else
        (case allocate (unat new_capacity) h of
           Inl e \<Rightarrow> (Inl e, l, h)
         | Inr (new_data, h1) \<Rightarrow>
             (case Resize_loop new_data (data l) (ptr_add (data l) (unat (count l))) h1 of
                (Inl e, h2) \<Rightarrow> (Inl e, l, h2)
              | (Inr _, h2) \<Rightarrow>
                  (case deallocate (data l) (unat (capacity l)) h2 of
                     Inl e \<Rightarrow> (Inl e, l, h2)
                   | Inr h3 \<Rightarrow>
                       (Inr (), l\<lparr>data := new_data, capacity := new_capacity\<rparr>, h3)))))"

definition ShrinkToFit :: "('a, 'al, unit) memfun" where
  "ShrinkToFit l h = (if capacity l = count l then (Inr (), l, h) else Resize (count l) l h)"

text \<open>The setter \<^verbatim>\<open>Capacity(size_t new_capacity)\<close>.\<close>

definition Capacity_set :: "size_t \<Rightarrow> ('a, 'al, unit) memfun" where
  "Capacity_set new_capacity l h =
     (if new_capacity \<le> capacity l then (Inr (), l, h) else Resize new_capacity l h)"

section \<open>Elements\<close>

text \<open>
  \<^verbatim>\<open>Add\<close>: the list grows first, when it is full. Then the placement argument
  \<^verbatim>\<open>data + count++\<close> is evaluated, so \<open>count\<close> is already incremented when the constructor
  runs; the constructor reads its arguments only then, after \<^verbatim>\<open>Resize\<close> may have freed
  the block they refer to, and it may throw.
\<close>

definition Add :: "'a ctor_args \<Rightarrow> ('a, 'al, unit) memfun" where
  "Add args l h =
     (case (if capacity l = count l
            then Capacity_set (max (2 * capacity l) 1) l h
            else (Inr (), l, h)) of
        (Inl e, l1, h1) \<Rightarrow> (Inl e, l1, h1)
      | (Inr _, l1, h1) \<Rightarrow>
          (let slot = ptr_add (data l1) (unat (count l1));
               l2 = l1\<lparr>count := count l1 + 1\<rparr>
           in case args of
                Throw \<Rightarrow> (Inl ctor_exception, l2, h1)
              | Build r \<Rightarrow>
                  (case deref r h1 of
                     Inl e \<Rightarrow> (Inl e, l2, h1)
                   | Inr v \<Rightarrow>
                       (case construct slot v h1 of
                          Inl e \<Rightarrow> (Inl e, l2, h1)
                        | Inr h2 \<Rightarrow> (Inr (), l2, h2)))))"

text \<open>
  \<^verbatim>\<open>Print\<close>: the text written to \<^verbatim>\<open>std::cout\<close> is the result; \<open>sh\<close> is the element
  type's \<^verbatim>\<open>operator<<\<close>. The loop bound \<^verbatim>\<open>count - 1\<close> is computed in \<^verbatim>\<open>size_t\<close>.
\<close>

function Print_loop ::
  "('a \<Rightarrow> string) \<Rightarrow> ptr \<Rightarrow> nat \<Rightarrow> nat \<Rightarrow> 'a heap \<Rightarrow> string \<Rightarrow> error + string" where
  "Print_loop sh d i n h out =
     (if i < n
      then (case load (ptr_add d i) h of
              Inl e \<Rightarrow> Inl e
            | Inr v \<Rightarrow> Print_loop sh d (i + 1) n h (out @ sh v @ '', ''))
      else Inr out)"
  by pat_completeness auto
termination
  by (relation "measure (\<lambda>(sh, d, i, n, h, out). n - i)") auto

definition Print :: "('a \<Rightarrow> string) \<Rightarrow> 'al List \<Rightarrow> 'a heap \<Rightarrow> error + string" where
  "Print sh l h =
     (case Print_loop sh (data l) 0 (unat (count l - 1)) h ''('' of
        Inl e \<Rightarrow> Inl e
      | Inr out \<Rightarrow>
          (case load (ptr_add (data l) (unat (count l - 1))) h of
             Inl e \<Rightarrow> Inl e
           | Inr v \<Rightarrow> Inr (out @ sh v @ '')'' @ [CHR 0x0A])))"

text \<open>\<^verbatim>\<open>FindIf\<close>: \<^verbatim>\<open>for (auto ptr = begin(); ptr < end(); ptr++) if (pred(*ptr)) return ptr;\<close>\<close>

fun ptr_off :: "ptr \<Rightarrow> nat" where
  "ptr_off nullptr = 0"
| "ptr_off (Ptr a i) = i"

lemma ptr_less_off: "ptr_less p q \<Longrightarrow> ptr_off q - ptr_off (ptr_add p 1) < ptr_off q - ptr_off p"
  by (cases p; cases q) auto

function FindIf_loop :: "'a predicate \<Rightarrow> ptr \<Rightarrow> ptr \<Rightarrow> 'a heap \<Rightarrow> error + ptr" where
  "FindIf_loop pred p end h =
     (if ptr_less p end
      then (case load p h of
              Inl e \<Rightarrow> Inl e
            | Inr v \<Rightarrow>
                (case pred h v of
                   Inl e \<Rightarrow> Inl e
                 | Inr b \<Rightarrow> if b then Inr p else FindIf_loop pred (ptr_add p 1) end h))
      else Inr nullptr)"
  by pat_completeness auto
termination
  by (relation "measure (\<lambda>(pred, p, end, h). ptr_off end - ptr_off p)")
     (auto dest: ptr_less_off)

definition FindIf :: "'a predicate \<Rightarrow> 'al List \<Rightarrow> 'a heap \<Rightarrow> error + ptr" where
  "FindIf pred l h = FindIf_loop pred (begin_ptr l) (end_ptr l) h"

text \<open>
  \<^verbatim>\<open>std::move(first, last, d_first)\<close>, the algorithm:
  \<^verbatim>\<open>while (first != last) *d_first++ = std::move(*first++);\<close>
\<close>

function move_range :: "ptr \<Rightarrow> ptr \<Rightarrow> ptr \<Rightarrow> 'a heap \<Rightarrow> (error + ptr) \<times> 'a heap" where
  "move_range first last' d_first h =
     (if first \<noteq> last'
      then (case load first h of
              Inl e \<Rightarrow> (Inl e, h)
            | Inr v \<Rightarrow>
                (case assign d_first v h of
                   Inl e \<Rightarrow> (Inl e, h)
                 | Inr h1 \<Rightarrow> move_range (ptr_add first 1) last' (ptr_add d_first 1) h1))
      else (Inr d_first, h))"
  by pat_completeness auto
termination
  by (relation "measure (\<lambda>(first, last', d_first, h). room h first)")
     (auto simp: room_assign dest: room_load)

definition RemoveAt :: "size_t \<Rightarrow> ('a, 'al, unit) memfun" where
  "RemoveAt index l h =
     (if index < 0 \<or> count l \<le> index then (Inl (out_of_range index), l, h)
      else
        (case move_range (ptr_add (ptr_add (data l) (unat index)) 1)
                         (ptr_add (data l) (unat (count l)))
                         (ptr_add (data l) (unat index)) h of
           (Inl e, h1) \<Rightarrow> (Inl e, l, h1)
         | (Inr _, h1) \<Rightarrow>
             (let l1 = l\<lparr>count := count l - 1\<rparr> in
              case destroy (ptr_add (data l1) (unat (count l1))) h1 of
                Inl e \<Rightarrow> (Inl e, l1, h1)
              | Inr h2 \<Rightarrow> (Inr (), l1, h2))))"

text \<open>
  \<^verbatim>\<open>RemoveIf\<close>: the compaction loop with its two pointers, then the loop that destroys
  the elements from the final \<^verbatim>\<open>placer\<close> to \<^verbatim>\<open>end()\<close>. For a trivially destructible
  element type the source leaves that loop out at compile time, the destructor doing
  nothing; the slots past the new count are dead storage either way.
\<close>

function RemoveIf_loop ::
  "'a predicate \<Rightarrow> ptr \<Rightarrow> ptr \<Rightarrow> ptr \<Rightarrow> 'a heap \<Rightarrow> (error + ptr) \<times> 'a heap" where
  "RemoveIf_loop pred placer picker end h =
     (if ptr_less picker end
      then (case load picker h of
              Inl e \<Rightarrow> (Inl e, h)
            | Inr v \<Rightarrow>
                (case pred h v of
                   Inl e \<Rightarrow> (Inl e, h)
                 | Inr b \<Rightarrow>
                     if \<not> b
                     then (case assign placer v h of
                             Inl e \<Rightarrow> (Inl e, h)
                           | Inr h1 \<Rightarrow>
                               RemoveIf_loop pred (ptr_add placer 1) (ptr_add picker 1) end h1)
                     else RemoveIf_loop pred placer (ptr_add picker 1) end h))
      else (Inr placer, h))"
  by pat_completeness auto
termination
  by (relation "measure (\<lambda>(pred, placer, picker, end, h). ptr_off end - ptr_off picker)")
     (auto dest: ptr_less_off)

function destroy_range :: "ptr \<Rightarrow> ptr \<Rightarrow> 'a heap \<Rightarrow> (error + unit) \<times> 'a heap" where
  "destroy_range k end h =
     (if ptr_less k end
      then (case destroy k h of
              Inl e \<Rightarrow> (Inl e, h)
            | Inr h1 \<Rightarrow> destroy_range (ptr_add k 1) end h1)
      else (Inr (), h))"
  by pat_completeness auto
termination
  by (relation "measure (\<lambda>(k, end, h). ptr_off end - ptr_off k)")
     (auto dest: ptr_less_off)

definition RemoveIf :: "'a predicate \<Rightarrow> ('a, 'al, size_t) memfun" where
  "RemoveIf pred l h =
     (case FindIf pred l h of
        Inl e \<Rightarrow> (Inl e, l, h)
      | Inr placer \<Rightarrow>
          if placer = nullptr then (Inr 0, l, h)
          else
            (case RemoveIf_loop pred placer (ptr_add placer 1) (end_ptr l) h of
               (Inl e, h1) \<Rightarrow> (Inl e, l, h1)
             | (Inr placer', h1) \<Rightarrow>
                 (case destroy_range placer' (end_ptr l) h1 of
                    (Inl e, h2) \<Rightarrow> (Inl e, l, h2)
                  | (Inr _, h2) \<Rightarrow>
                      (let removed = ptr_diff (end_ptr l) placer' in
                       (Inr (word_of_int removed),
                        l\<lparr>count := count l - word_of_int removed\<rparr>, h2)))))"

text \<open>
  \<^verbatim>\<open>Remove\<close> takes its argument by reference and the lambda captures it by reference, so
  each comparison \<^verbatim>\<open>e == val\<close> reads \<open>val\<close> where it is at that moment.
\<close>

definition Remove :: "'a cref \<Rightarrow> ('a, 'al, size_t) memfun" where
  "Remove val l h =
     RemoveIf (\<lambda>h' e. case deref val h' of Inl x \<Rightarrow> Inl x | Inr v \<Rightarrow> Inr (e = v)) l h"

section \<open>Copy, move and swap\<close>

text \<open>\<^verbatim>\<open>swap\<close> exchanges the four fields.\<close>

definition swap :: "'al List \<Rightarrow> 'al List \<Rightarrow> 'al List \<times> 'al List" where
  "swap first second =
     (first\<lparr>dataAllocator := dataAllocator second, capacity := capacity second,
            count := count second, data := data second\<rparr>,
      second\<lparr>dataAllocator := dataAllocator first, capacity := capacity first,
             count := count first, data := data first\<rparr>)"

text \<open>
  The move constructor gives the new object and the source as it is left. Moving an
  allocator leaves its value unchanged.
\<close>

definition List_move :: "'al List \<Rightarrow> 'al List \<times> 'al List" where
  "List_move other =
     (\<lparr>data = data other, capacity = capacity other, count = count other,
       dataAllocator = dataAllocator other\<rparr>,
      other\<lparr>data := nullptr, capacity := 0, count := 0\<rparr>)"

text \<open>The destructor.\<close>

definition List_destroy :: "('a, 'al, unit) memfun" where
  "List_destroy l h =
     (case Clear l h of
        (Inl e, l1, h1) \<Rightarrow> (Inl e, l1, h1)
      | (Inr _, l1, h1) \<Rightarrow>
          (case deallocate (data l1) (unat (capacity l1)) h1 of
             Inl e \<Rightarrow> (Inl e, l1, h1)
           | Inr h2 \<Rightarrow> (Inr (), l1, h2)))"

text \<open>
  Assignment involves two objects that may be the same one, so it is modelled on a store
  of objects: \<open>this\<close> and \<open>other\<close> are the objects' identities.
\<close>

record ('a, 'al) world =
  objs :: "nat \<Rightarrow> 'al List"
  mem :: "'a heap"

definition call ::
  "nat \<Rightarrow> ('a, 'al, 'r) memfun \<Rightarrow> ('a, 'al) world \<Rightarrow> (error + 'r) \<times> ('a, 'al) world" where
  "call this m w =
     (case m (objs w this) (mem w) of
        (r, l', h') \<Rightarrow> (r, w\<lparr>objs := (objs w)(this := l'), mem := h'\<rparr>))"

function copy_loop :: "ptr \<Rightarrow> ptr \<Rightarrow> ptr \<Rightarrow> 'a heap \<Rightarrow> (error + unit) \<times> 'a heap" where
  "copy_loop dst src end h =
     (if src \<noteq> end
      then (case load src h of
              Inl e \<Rightarrow> (Inl e, h)
            | Inr v \<Rightarrow>
                (case construct dst v h of
                   Inl e \<Rightarrow> (Inl e, h)
                 | Inr h1 \<Rightarrow> copy_loop (ptr_add dst 1) (ptr_add src 1) end h1))
      else (Inr (), h))"
  by pat_completeness auto
termination
  by (relation "measure (\<lambda>(dst, src, end, h). room h src)")
     (auto simp: room_construct dest: room_load)

definition copy_assign ::
  "nat \<Rightarrow> nat \<Rightarrow> ('a, 'al) world \<Rightarrow> (error + unit) \<times> ('a, 'al) world" where
  "copy_assign this other w =
     (if this \<noteq> other
      then
        (case call this Clear w of
           (Inl e, w1) \<Rightarrow> (Inl e, w1)
         | (Inr _, w1) \<Rightarrow>
             (case call this (Capacity_set (capacity (objs w1 other))) w1 of
                (Inl e, w2) \<Rightarrow> (Inl e, w2)
              | (Inr _, w2) \<Rightarrow>
                  (case copy_loop (data (objs w2 this)) (data (objs w2 other))
                          (ptr_add (data (objs w2 other)) (unat (count (objs w2 other))))
                          (mem w2) of
                     (Inl e, h3) \<Rightarrow> (Inl e, w2\<lparr>mem := h3\<rparr>)
                   | (Inr _, h3) \<Rightarrow>
                       (Inr (),
                        w2\<lparr>objs := (objs w2)
                               (this := (objs w2 this)\<lparr>count := count (objs w2 other)\<rparr>),
                           mem := h3\<rparr>))))
      else (Inr (), w))"

text \<open>
  The move constructor building the object \<open>this\<close> from \<open>other\<close>, and move assignment:
  a temporary is move-constructed from \<open>other\<close>, swapped with \<open>this\<close> and destroyed.
\<close>

definition move_construct :: "nat \<Rightarrow> nat \<Rightarrow> ('a, 'al) world \<Rightarrow> ('a, 'al) world" where
  "move_construct this other w =
     (case List_move (objs w other) of
        (new, other') \<Rightarrow> w\<lparr>objs := (objs w)(other := other', this := new)\<rparr>)"

definition move_assign ::
  "nat \<Rightarrow> nat \<Rightarrow> ('a, 'al) world \<Rightarrow> (error + unit) \<times> ('a, 'al) world" where
  "move_assign this other w =
     (case List_move (objs w other) of
        (tmp, other') \<Rightarrow>
          (let w1 = w\<lparr>objs := (objs w)(other := other')\<rparr> in
           case swap (objs w1 this) tmp of
             (this', tmp') \<Rightarrow>
               (let w2 = w1\<lparr>objs := (objs w1)(this := this')\<rparr> in
                case List_destroy tmp' (mem w2) of
                  (r, tmp'', h') \<Rightarrow> (r, w2\<lparr>mem := h'\<rparr>))))"

section \<open>What a container holds\<close>

text \<open>
  \<open>rep l h xs\<close>: the object \<open>l\<close> is in the state the data model asks for and holds the
  elements \<open>xs\<close>, in this order. Slots \<open>[0, count)\<close> of its block are the constructed
  elements, slots \<open>[count, capacity)\<close> are raw memory, the block has \<open>capacity\<close> slots, and
  a null \<open>data\<close> goes with capacity 0.
\<close>

definition rep :: "'al List \<Rightarrow> 'a heap \<Rightarrow> 'a list \<Rightarrow> bool" where
  "rep l h xs \<longleftrightarrow>
     length xs = unat (count l) \<and> unat (count l) \<le> unat (capacity l) \<and>
     (case data l of
        nullptr \<Rightarrow> capacity l = 0
      | Ptr a i \<Rightarrow>
          i = 0 \<and>
          blocks h a = Some (map Some xs @ replicate (unat (capacity l) - length xs) None))"

text \<open>
  The state a test builds: a container holding \<open>xs\<close> in block 0, followed by \<open>spare\<close> raw
  slots, in a heap with \<open>free\<close> slots left to allocate.
\<close>

definition heap_of :: "'a list \<Rightarrow> nat \<Rightarrow> nat \<Rightarrow> 'a heap" where
  "heap_of xs spare free =
     \<lparr>blocks = (\<lambda>a. if a = 0 then Some (map Some xs @ replicate spare None) else None),
      next_addr = 1, avail = free\<rparr>"

definition list_of :: "'a list \<Rightarrow> nat \<Rightarrow> unit List" where
  "list_of xs spare =
     \<lparr>data = Ptr 0 0, capacity = of_nat (length xs + spare), count = of_nat (length xs),
      dataAllocator = ()\<rparr>"

text \<open>
  A sequence of \<^verbatim>\<open>Add\<close> calls, one for each entry of the list of arguments, stopping at
  the first exception.
\<close>

fun Add_all :: "'a ctor_args list \<Rightarrow> ('a, 'al, unit) memfun" where
  "Add_all [] l h = (Inr (), l, h)"
| "Add_all (v # vs) l h =
     (case Add v l h of
        (Inl e, l1, h1) \<Rightarrow> (Inl e, l1, h1)
      | (Inr _, l1, h1) \<Rightarrow> Add_all vs l1 h1)"

text \<open>A heap with no block and \<open>free\<close> slots to allocate.\<close>

definition empty_heap :: "nat \<Rightarrow> 'a heap" where
  "empty_heap free = \<lparr>blocks = (\<lambda>a. None), next_addr = 0, avail = free\<rparr>"

text \<open>
  Two containers in one store: object 0 holds \<open>[1, 2]\<close> in a block of 2 slots, object 1
  holds \<open>[7, 8, 9]\<close> in a block of 4 slots, and the allocator has nothing left.
\<close>

definition two_lists :: "(int, unit) world" where
  "two_lists =
     \<lparr>objs = (\<lambda>i. if i = 0 then \<lparr>data = Ptr 0 0, capacity = 2, count = 2, dataAllocator = ()\<rparr>
                  else if i = 1
                  then \<lparr>data = Ptr 1 0, capacity = 4, count = 3, dataAllocator = ()\<rparr>
                  else List_new ()),
      mem = \<lparr>blocks = (\<lambda>a. if a = 0 then Some [Some 1, Some 2]
                          else if a = 1 then Some [Some 7, Some 8, Some 9, None]
                          else None),
             next_addr = 2, avail = 0\<rparr>\<rparr>"

text \<open>The empty state: no element, no capacity, no storage.\<close>

definition is_empty_state :: "'al List \<Rightarrow> bool" where
  "is_empty_state l \<longleftrightarrow> Count l = 0 \<and> Capacity l = 0 \<and> data l = nullptr"


lemma blocks_set_block [simp]:
  "blocks (set_block a s h) b = (if b = a then Some s else blocks h b)"
  by (simp add: set_block_def)

lemma next_addr_set_block [simp]: "next_addr (set_block a s h) = next_addr h"
  by (simp add: set_block_def)

lemma avail_set_block [simp]: "avail (set_block a s h) = avail h"
  by (simp add: set_block_def)

lemma set_block_set_block [simp]: "set_block a s (set_block a s' h) = set_block a s h"
  by (simp add: set_block_def)

lemma set_block_same: "blocks h a = Some s \<Longrightarrow> set_block a s h = h"
  by (simp add: set_block_def fun_upd_idem)

lemma set_block_commute:
  "a \<noteq> b \<Longrightarrow> set_block a s (set_block b t h) = set_block b t (set_block a s h)"
  by (simp add: set_block_def fun_upd_twist)

lemma load_at:
  "blocks h a = Some (pre @ Some v # post) \<Longrightarrow> i = length pre \<Longrightarrow> load (Ptr a i) h = Inr v"
  by (simp add: load_def slot_at_def)

lemma construct_at:
  "blocks h a = Some (pre @ None # post) \<Longrightarrow> i = length pre \<Longrightarrow>
   construct (Ptr a i) v h = Inr (set_block a (pre @ Some v # post) h)"
  by (simp add: construct_def slot_at_def put_slot_def)

lemma destroy_at:
  "blocks h a = Some (pre @ Some v # post) \<Longrightarrow> i = length pre \<Longrightarrow>
   destroy (Ptr a i) h = Inr (set_block a (pre @ None # post) h)"
  by (simp add: destroy_def slot_at_def put_slot_def)

lemma assign_at:
  "blocks h a = Some (pre @ Some u # post) \<Longrightarrow> i = length pre \<Longrightarrow>
   assign (Ptr a i) v h = Inr (set_block a (pre @ Some v # post) h)"
  by (simp add: assign_def slot_at_def put_slot_def)

declare Clear_loop.simps [simp del]

lemma Clear_loop_live:
  "blocks h a = Some (pre @ map Some ys @ post) \<Longrightarrow>
   Clear_loop (Ptr a 0) (length pre) (length pre + length ys) h =
     (Inr (), set_block a (pre @ replicate (length ys) None @ post) h)"
proof (induction ys arbitrary: pre h)
  case Nil
  then show ?case by (simp add: Clear_loop.simps set_block_same)
next
  case (Cons y ys)
  let ?h1 = "set_block a (pre @ None # map Some ys @ post) h"
  have d: "destroy (Ptr a (length pre)) h = Inr ?h1"
    using Cons.prems by (simp add: destroy_at)
  have b1: "blocks ?h1 a = Some ((pre @ [None]) @ map Some ys @ post)"
    by simp
  have "Clear_loop (Ptr a 0) (length pre) (length pre + length (y # ys)) h =
        Clear_loop (Ptr a 0) (length (pre @ [None])) (length (pre @ [None]) + length ys) ?h1"
    by (subst Clear_loop.simps) (simp add: d)
  with Cons.IH [OF b1] show ?case by simp
qed

lemma Clear_rep:
  assumes "rep l h xs"
  shows "\<exists>h'. Clear l h = (Inr (), l\<lparr>count := 0\<rparr>, h') \<and> rep (l\<lparr>count := 0\<rparr>) h' [] \<and>
              next_addr h' = next_addr h \<and> avail h' = avail h \<and>
              (\<forall>b. Ptr b 0 \<noteq> data l \<longrightarrow> blocks h' b = blocks h b)"
proof (cases "data l")
  case nullptr
  with assms have "count l = 0" by (auto simp: rep_def unat_eq_0)
  with nullptr assms show ?thesis
    by (simp add: Clear_def rep_def Clear_loop.simps [of nullptr])
next
  case (Ptr a i)
  with assms have i: "i = 0"
    and b: "blocks h a = Some ([] @ map Some xs @ replicate (unat (capacity l) - length xs) None)"
    and len: "length xs = unat (count l)" "unat (count l) \<le> unat (capacity l)"
    by (simp_all add: rep_def)
  from Clear_loop_live [OF b] Ptr i len show ?thesis
    by (simp add: Clear_def rep_def replicate_add [symmetric] del: replicate_add)
qed

subsection \<open>Reallocation\<close>

declare Resize_loop.simps [simp del]

lemma set_block_absorb:
  "a \<noteq> b \<Longrightarrow> set_block b t (set_block a s (set_block b t' h)) = set_block b t (set_block a s h)"
  by (simp add: set_block_commute [of a b])

lemma Resize_loop_live:
  "a \<noteq> b \<Longrightarrow> blocks h a = Some (pa @ map Some ys @ qa) \<Longrightarrow>
   blocks h b = Some (pb @ replicate (length ys) None @ qb) \<Longrightarrow>
   Resize_loop (Ptr b (length pb)) (Ptr a (length pa)) (Ptr a (length pa + length ys)) h =
     (Inr (), set_block b (pb @ map Some ys @ qb)
                (set_block a (pa @ replicate (length ys) None @ qa) h))"
proof (induction ys arbitrary: pa pb h)
  case Nil
  then show ?case by (simp add: Resize_loop.simps set_block_same)
next
  case (Cons y ys)
  let ?h1 = "set_block b (pb @ Some y # replicate (length ys) None @ qb) h"
  let ?h2 = "set_block a (pa @ None # map Some ys @ qa) ?h1"
  have ld: "load (Ptr a (length pa)) h = Inr y"
    using Cons.prems(2) by (simp add: load_at)
  have cs: "construct (Ptr b (length pb)) y h = Inr ?h1"
    using Cons.prems(3) by (simp add: construct_at)
  have "blocks ?h1 a = Some (pa @ Some y # map Some ys @ qa)"
    using Cons.prems(1,2) by simp
  then have ds: "destroy (Ptr a (length pa)) ?h1 = Inr ?h2"
    by (simp add: destroy_at)
  have ba: "blocks ?h2 a = Some ((pa @ [None]) @ map Some ys @ qa)"
    by simp
  have bb: "blocks ?h2 b = Some ((pb @ [Some y]) @ replicate (length ys) None @ qb)"
    using Cons.prems(1) by simp
  have step: "Resize_loop (Ptr b (length pb)) (Ptr a (length pa))
                (Ptr a (length pa + length (y # ys))) h =
              Resize_loop (Ptr b (length (pb @ [Some y]))) (Ptr a (length (pa @ [None])))
                (Ptr a (length (pa @ [None]) + length ys)) ?h2"
    by (subst Resize_loop.simps) (simp add: ld cs ds)
  show ?case
    unfolding step Cons.IH [OF Cons.prems(1) ba bb]
    using Cons.prems(1) by (simp add: set_block_absorb)
qed

lemma Resize_rep:
  assumes r: "rep l h xs" and ok: "heap_ok h" and n: "count l \<le> n" and av: "unat n \<le> avail h"
  shows "\<exists>h'. Resize n l h = (Inr (), l\<lparr>data := Ptr (next_addr h) 0, capacity := n\<rparr>, h') \<and>
           rep (l\<lparr>data := Ptr (next_addr h) 0, capacity := n\<rparr>) h' xs \<and> heap_ok h' \<and>
           next_addr h' = Suc (next_addr h) \<and>
           avail h' + unat n = avail h + unat (capacity l) \<and>
           (\<forall>c. c \<noteq> next_addr h \<and> Ptr c 0 \<noteq> data l \<longrightarrow> blocks h' c = blocks h c)"
proof -
  let ?b = "next_addr h"
  let ?h1 = "h\<lparr>blocks := (blocks h)(?b \<mapsto> replicate (unat n) None),
               next_addr := Suc ?b, avail := avail h - unat n\<rparr>"
  have al: "allocate (unat n) h = Inr (Ptr ?b 0, ?h1)"
    using av by (simp add: allocate_def)
  have len: "length xs = unat (count l)" "unat (count l) \<le> unat (capacity l)"
    using r by (simp_all add: rep_def)
  have n': "unat (count l) \<le> unat n" "\<not> n < count l"
    using n by (simp_all add: word_le_nat_alt not_less)
  have fresh: "blocks h ?b = None"
    using ok by (simp add: heap_ok_def)
  show ?thesis
  proof (cases "data l")
    case nullptr
    with r have c0: "capacity l = 0" by (simp add: rep_def)
    with len have "count l = 0" "xs = []" by (auto simp: unat_eq_0)
    with nullptr c0 al ok av show ?thesis
      by (simp add: Resize_def Resize_loop.simps [of _ nullptr] deallocate_def rep_def
            heap_ok_def)
  next
    case (Ptr a i)
    with r have i: "i = 0"
      and ba: "blocks h a = Some (map Some xs @ replicate (unat (capacity l) - length xs) None)"
      by (simp_all add: rep_def)
    from ba fresh have ab: "a \<noteq> ?b" by auto
    have ba1: "blocks ?h1 a =
                 Some ([] @ map Some xs @ replicate (unat (capacity l) - length xs) None)"
      using ba ab by simp
    have bb1: "blocks ?h1 ?b =
                 Some ([] @ replicate (length xs) None @ replicate (unat n - length xs) None)"
      using n' len by (simp add: replicate_add [symmetric] del: replicate_add)
    note lp = Resize_loop_live [OF ab ba1 bb1]
    let ?h2 = "set_block ?b ([] @ map Some xs @ replicate (unat n - length xs) None)
                (set_block a ([] @ replicate (length xs) None @
                   replicate (unat (capacity l) - length xs) None) ?h1)"
    have de: "deallocate (Ptr a 0) (unat (capacity l)) ?h2 =
                Inr (?h2\<lparr>blocks := (blocks ?h2)(a := None),
                        avail := avail ?h2 + unat (capacity l)\<rparr>)"
      using ab len by (simp add: deallocate_def)
    show ?thesis
      using Ptr i al lp de n' len ab ok av
      by (simp add: Resize_def rep_def heap_ok_def)
  qed
qed


lemma Resize_bad_alloc:
  "count l \<le> n \<Longrightarrow> avail h < unat n \<Longrightarrow> Resize n l h = (Inl bad_alloc, l, h)"
  by (simp add: Resize_def allocate_def not_less [symmetric])

lemma rep_list_of:
  "length xs + spare < 2 ^ 64 \<Longrightarrow> rep (list_of xs spare) (heap_of xs spare free) xs"
  by (simp add: rep_def list_of_def heap_of_def unsigned_of_nat take_bit_nat_eq_self del: of_nat_add)

lemma heap_ok_heap_of: "heap_ok (heap_of xs spare free)"
  by (simp add: heap_ok_def heap_of_def)

subsection \<open>Adding elements\<close>

lemma rep_Count: "rep l h xs \<Longrightarrow> Count l = of_nat (length xs)"
  by (simp add: rep_def Count_def)

lemma rep_subscript:
  assumes "rep l h xs" and "i < length xs"
  shows "subscript l h (of_nat i) = Inr (xs ! i)"
proof -
  from assms have len: "length xs = unat (count l)" "unat (count l) \<le> unat (capacity l)"
    by (simp_all add: rep_def)
  have "unat (count l) < 2 ^ 64"
    using unsigned_less [of "count l"] by simp
  with assms(2) len have i: "unat (of_nat i :: size_t) = i"
    by (simp add: unsigned_of_nat take_bit_nat_eq_self)
  from assms len have "capacity l \<noteq> 0" by auto
  with assms(1) obtain a where
    d: "data l = Ptr a 0" and
    b: "blocks h a = Some (map Some xs @ replicate (unat (capacity l) - length xs) None)"
    by (auto simp: rep_def split: ptr.splits)
  from assms(2) d b i show ?thesis
    by (simp add: subscript_def load_def slot_at_def nth_append)
qed

lemma heap_ok_set_block:
  "heap_ok h \<Longrightarrow> blocks h a = Some s \<Longrightarrow> heap_ok (set_block a s' h)"
  by (auto simp: heap_ok_def)

lemma construct_next:
  assumes "rep l h xs" and "capacity l \<noteq> count l"
  shows "\<exists>h'. construct (ptr_add (data l) (unat (count l))) v h = Inr h' \<and>
           rep (l\<lparr>count := count l + 1\<rparr>) h' (xs @ [v]) \<and>
           (heap_ok h \<longrightarrow> heap_ok h') \<and>
           next_addr h' = next_addr h \<and> avail h' = avail h \<and>
           (\<forall>c. Ptr c 0 \<noteq> data l \<longrightarrow> blocks h' c = blocks h c)"
proof -
  from assms have len: "length xs = unat (count l)" and lt: "unat (count l) < unat (capacity l)"
    by (auto simp: rep_def le_less word_unat_eq_iff)
  have "unat (capacity l) < 2 ^ 64"
    using unsigned_less [of "capacity l"] by simp
  with lt have c1: "unat (count l + 1) = Suc (unat (count l))"
    by (simp add: unat_word_ariths)
  from lt have "capacity l \<noteq> 0" by auto
  with assms(1) obtain a where
    d: "data l = Ptr a 0" and
    b: "blocks h a = Some (map Some xs @ replicate (unat (capacity l) - length xs) None)"
    by (auto simp: rep_def split: ptr.splits)
  from lt len obtain k where k: "unat (capacity l) - length xs = Suc k"
    by (cases "unat (capacity l) - length xs") auto
  with b have b': "blocks h a = Some (map Some xs @ None # replicate k None)"
    by simp
  from construct_at [OF b', of "unat (count l)" v] d len lt k c1 heap_ok_set_block [OF _ b]
  show ?thesis
    by (auto simp: rep_def)
qed

lemma Add_grow:
  assumes r: "rep l h xs" and small: "length xs < 2 ^ 63" and full: "capacity l = count l"
  shows "count l \<le> max (2 * capacity l) 1" and "\<not> max (2 * capacity l) 1 \<le> capacity l"
proof -
  let ?n = "max (2 * capacity l) 1"
  from r have len: "length xs = unat (count l)" by (simp add: rep_def)
  with small full have c63: "unat (capacity l) < 2 ^ 63" by simp
  then have dbl: "unat (2 * capacity l) = 2 * unat (capacity l)"
    by (simp add: unat_word_ariths)
  have un: "unat ?n = max (2 * unat (capacity l)) 1"
    using dbl by (simp add: max_def word_le_nat_alt)
  have gt: "capacity l < ?n"
    unfolding word_less_nat_alt un by simp
  from gt show "\<not> ?n \<le> capacity l"
    by (simp only: not_le)
  from gt show "count l \<le> ?n"
    unfolding full by (rule less_imp_le)
qed

lemma Add_full:
  assumes full: "capacity l = count l"
  shows "Add args l h =
           (case Capacity_set (max (2 * capacity l) 1) l h of
              (Inl e, l1, h1) \<Rightarrow> (Inl e, l1, h1)
            | (Inr _, l1, h1) \<Rightarrow>
                (let slot = ptr_add (data l1) (unat (count l1));
                     l2 = l1\<lparr>count := count l1 + 1\<rparr>
                 in case args of
                      Throw \<Rightarrow> (Inl ctor_exception, l2, h1)
                    | Build r \<Rightarrow>
                        (case deref r h1 of
                           Inl e \<Rightarrow> (Inl e, l2, h1)
                         | Inr v \<Rightarrow>
                             (case construct slot v h1 of
                                Inl e \<Rightarrow> (Inl e, l2, h1)
                              | Inr h2 \<Rightarrow> (Inr (), l2, h2)))))"
  unfolding Add_def by (subst if_P [OF full]) (rule refl)

lemma Add_bad_alloc:
  assumes r: "rep l h xs" and small: "length xs < 2 ^ 63" and full: "capacity l = count l"
    and av: "avail h < unat (max (2 * capacity l) 1)"
  shows "Add args l h = (Inl bad_alloc, l, h)"
proof -
  let ?n = "max (2 * capacity l) 1"
  note g = Add_grow [OF r small full]
  from Resize_bad_alloc [OF g(1) av] have cap: "Capacity_set ?n l h = (Inl bad_alloc, l, h)"
    using g(2) by (simp only: Capacity_set_def if_False)
  show ?thesis
    unfolding Add_full [OF full] cap by simp
qed

lemma Add_rep:
  assumes r: "rep l h xs" and ok: "heap_ok h" and small: "length xs < 2 ^ 63"
  shows "if capacity l \<noteq> count l \<or> unat (max (2 * capacity l) 1) \<le> avail h
         then \<exists>l' h'. Add (Build (Object v)) l h = (Inr (), l', h') \<and> rep l' h' (xs @ [v]) \<and>
                heap_ok h' \<and> count l' = count l + 1 \<and>
                avail h' + unat (capacity l') = avail h + unat (capacity l)
         else Add (Build (Object v)) l h = (Inl bad_alloc, l, h)"
proof (cases "capacity l = count l")
  case False
  from construct_next [OF r False, of v] False ok show ?thesis
    by (auto simp: Add_def deref_def Let_def)
next
  case True
  let ?n = "max (2 * capacity l) 1"
  note g = Add_grow [OF r small True]
  show ?thesis
  proof (cases "unat ?n \<le> avail h")
    case av: True
    let ?l1 = "l\<lparr>data := Ptr (next_addr h) 0, capacity := ?n\<rparr>"
    from Resize_rep [OF r ok g(1) av] obtain h1 where
      rz: "Resize ?n l h = (Inr (), ?l1, h1)" and r1: "rep ?l1 h1 xs" and ok1: "heap_ok h1"
      and av1: "avail h1 + unat ?n = avail h + unat (capacity l)"
      by blast
    have ne: "capacity ?l1 \<noteq> count ?l1"
    proof
      assume "capacity ?l1 = count ?l1"
      then have "?n = capacity l" by (simp add: True)
      then have "?n \<le> capacity l" by (simp only: order_refl)
      with g(2) show False by contradiction
    qed
    from construct_next [OF r1 ne, of v] obtain h2 where
      cs: "construct (ptr_add (data ?l1) (unat (count ?l1))) v h1 = Inr h2"
      and r2: "rep (?l1\<lparr>count := count ?l1 + 1\<rparr>) h2 (xs @ [v])"
      and ok2: "heap_ok h1 \<longrightarrow> heap_ok h2" and fr: "avail h2 = avail h1"
      by blast
    have cap: "Capacity_set ?n l h = (Inr (), ?l1, h1)"
      using g(2) rz by (simp only: Capacity_set_def if_False)
    show ?thesis
      unfolding Add_full [OF True] cap using av cs r2 ok1 ok2 av1 fr
      by (simp add: deref_def Let_def)
  next
    case False
    then have "avail h < unat ?n" by (simp only: not_le)
    from Add_bad_alloc [OF r small True this] False True show ?thesis by simp
  qed
qed

lemma heap_ok_empty_heap: "heap_ok (empty_heap free)"
  by (simp add: heap_ok_def empty_heap_def)

lemma rep_List_new: "rep (List_new al) h []"
  by (simp add: rep_def List_new_def)

lemma unat_growth:
  "unat (c :: size_t) < 2 ^ 63 \<Longrightarrow> unat (max (2 * c) 1) = max (2 * unat c) 1"
  by (simp add: max_def word_le_nat_alt unat_word_ariths)

lemma Add_all_rep:
  "rep l h xs \<Longrightarrow> heap_ok h \<Longrightarrow> length xs + length vs < 2 ^ 63 \<Longrightarrow>
   3 * (length xs + length vs) \<le> avail h + unat (capacity l) \<Longrightarrow>
   \<exists>l' h'. Add_all (map (\<lambda>v. Build (Object v)) vs) l h = (Inr (), l', h') \<and> rep l' h' (xs @ vs)"
proof (induction vs arbitrary: l h xs)
  case Nil
  then show ?case by simp
next
  case (Cons v vs)
  from Cons.prems(3) have small: "length xs < 2 ^ 63" by simp
  from Cons.prems(1) have len: "length xs = unat (count l)" by (simp add: rep_def)
  have room: "capacity l \<noteq> count l \<or> unat (max (2 * capacity l) 1) \<le> avail h"
  proof (cases "capacity l = count l")
    case True
    with len small have "unat (capacity l) < 2 ^ 63" by simp
    from unat_growth [OF this] Cons.prems(4) True len show ?thesis by simp
  qed simp
  from Add_rep [OF Cons.prems(1,2) small, of v] have
    "\<exists>l' h'. Add (Build (Object v)) l h = (Inr (), l', h') \<and> rep l' h' (xs @ [v]) \<and>
        heap_ok h' \<and> count l' = count l + 1 \<and>
        avail h' + unat (capacity l') = avail h + unat (capacity l)"
    by (simp only: room if_True)
  then obtain l1 h1 where
    ad: "Add (Build (Object v)) l h = (Inr (), l1, h1)" and r1: "rep l1 h1 (xs @ [v])"
    and ok1: "heap_ok h1"
    and av: "avail h1 + unat (capacity l1) = avail h + unat (capacity l)"
    by blast
  have "length (xs @ [v]) + length vs < 2 ^ 63"
    using Cons.prems(3) by simp
  moreover have "3 * (length (xs @ [v]) + length vs) \<le> avail h1 + unat (capacity l1)"
    using Cons.prems(4) av by simp
  ultimately obtain l' h' where
    "Add_all (map (\<lambda>v. Build (Object v)) vs) l1 h1 = (Inr (), l', h')"
    "rep l' h' ((xs @ [v]) @ vs)"
    using Cons.IH [OF r1 ok1] by blast
  with ad show ?case by simp
qed

subsection \<open>Removal by index\<close>

declare move_range.simps [simp del]

lemma move_range_live:
  "blocks h a = Some (pre @ Some x # map Some rest @ post) \<Longrightarrow>
   move_range (Ptr a (Suc (length pre))) (Ptr a (Suc (length pre) + length rest))
     (Ptr a (length pre)) h =
     (Inr (Ptr a (length pre + length rest)),
      set_block a (pre @ map Some rest @ Some (last (x # rest)) # post) h)"
proof (induction rest arbitrary: pre x h)
  case Nil
  then show ?case by (simp add: move_range.simps set_block_same)
next
  case (Cons r rs)
  let ?h1 = "set_block a (pre @ Some r # Some r # map Some rs @ post) h"
  have "blocks h a = Some ((pre @ [Some x]) @ Some r # map Some rs @ post)"
    using Cons.prems by simp
  then have ld: "load (Ptr a (Suc (length pre))) h = Inr r"
    by (rule load_at) simp
  have as: "assign (Ptr a (length pre)) r h = Inr ?h1"
    using Cons.prems by (simp add: assign_at)
  have b1: "blocks ?h1 a = Some ((pre @ [Some r]) @ Some r # map Some rs @ post)"
    by simp
  have step: "move_range (Ptr a (Suc (length pre))) (Ptr a (Suc (length pre) + length (r # rs)))
                (Ptr a (length pre)) h =
              move_range (Ptr a (Suc (length (pre @ [Some r]))))
                (Ptr a (Suc (length (pre @ [Some r])) + length rs))
                (Ptr a (length (pre @ [Some r]))) ?h1"
    by (subst move_range.simps) (simp add: ld as)
  show ?case
    unfolding step Cons.IH [OF b1] by simp
qed

lemma RemoveAt_rep:
  assumes r: "rep l h xs" and i: "index < count l"
  shows "\<exists>h'. RemoveAt index l h = (Inr (), l\<lparr>count := count l - 1\<rparr>, h') \<and>
           rep (l\<lparr>count := count l - 1\<rparr>) h'
             (take (unat index) xs @ drop (Suc (unat index)) xs) \<and>
           (heap_ok h \<longrightarrow> heap_ok h') \<and> next_addr h' = next_addr h \<and> avail h' = avail h"
proof -
  let ?i = "unat index"
  let ?post = "replicate (unat (capacity l) - length xs) None"
  from r have len: "length xs = unat (count l)" "unat (count l) \<le> unat (capacity l)"
    by (simp_all add: rep_def)
  from i len have il: "?i < length xs"
    by (simp add: word_less_nat_alt)
  from i have guard: "\<not> (index < 0 \<or> count l \<le> index)"
    by (simp add: not_le)
  from il len have c1: "unat (count l - 1) = length xs - 1"
    by (simp add: unat_minus_one unat_eq_0 [symmetric] del: unat_eq_0)
  from il len have "capacity l \<noteq> 0" by auto
  with r obtain a where
    d: "data l = Ptr a 0" and
    b: "blocks h a = Some (map Some xs @ ?post)"
    by (auto simp: rep_def split: ptr.splits)
  let ?pre = "map Some (take ?i xs)"
  let ?rest = "drop (Suc ?i) xs"
  have xs: "xs = take ?i xs @ xs ! ?i # ?rest"
    using il by (rule id_take_nth_drop)
  have lp: "length ?pre = ?i" and lr: "?i + length ?rest = length xs - 1"
    using il by simp_all
  from xs have "map Some xs = map Some (take ?i xs @ xs ! ?i # ?rest)"
    by (rule arg_cong)
  then have "map Some xs = ?pre @ Some (xs ! ?i) # map Some ?rest"
    by (simp only: map_append list.map)
  with b have b0: "blocks h a = Some (?pre @ Some (xs ! ?i) # map Some ?rest @ ?post)"
    by (simp only: append_assoc append_Cons)
  let ?h1 = "set_block a (?pre @ map Some ?rest @ Some (last (xs ! ?i # ?rest)) # ?post) h"
  from move_range_live [OF b0] lp have mv:
    "move_range (Ptr a (Suc ?i)) (Ptr a (Suc ?i + length ?rest)) (Ptr a ?i) h =
       (Inr (Ptr a (?i + length ?rest)), ?h1)"
    by simp
  have e: "Suc ?i + length ?rest = unat (count l)"
    using il len by simp
  let ?h2 = "set_block a ((?pre @ map Some ?rest) @ None # ?post) ?h1"
  have "blocks ?h1 a = Some ((?pre @ map Some ?rest) @ Some (last (xs ! ?i # ?rest)) # ?post)"
    by simp
  then have ds: "destroy (Ptr a (length xs - 1)) ?h1 = Inr ?h2"
    by (rule destroy_at) (use lp lr in simp)
  have post: "None # ?post = replicate (unat (capacity l) - (length xs - 1)) None"
    using il len by (simp add: Suc_diff_le replicate_Suc [symmetric] del: replicate_Suc)
  have r': "rep (l\<lparr>count := count l - 1\<rparr>) ?h2 (take ?i xs @ ?rest)"
    using d c1 lr il len post by (auto simp: rep_def)
  have ok: "heap_ok h \<longrightarrow> heap_ok ?h2"
    using b by (auto intro!: heap_ok_set_block)
  show ?thesis
    using guard d mv e ds c1 r' ok
    by (simp add: RemoveAt_def Let_def)
qed

subsection \<open>Removal by predicate\<close>

declare FindIf_loop.simps [simp del]
declare RemoveIf_loop.simps [simp del]
declare destroy_range.simps [simp del]

lemma FindIf_loop_live:
  "blocks h a = Some (pre @ map Some ys @ post) \<Longrightarrow>
   FindIf_loop (on_element pred) (Ptr a (length pre)) (Ptr a (length pre + length ys)) h =
     Inr (if \<exists>y\<in>set ys. pred y
          then Ptr a (length pre + length (takeWhile (Not \<circ> pred) ys))
          else nullptr)"
proof (induction ys arbitrary: pre)
  case Nil
  then show ?case by (simp add: FindIf_loop.simps)
next
  case (Cons y ys)
  have ld: "load (Ptr a (length pre)) h = Inr y"
    using Cons.prems by (simp add: load_at)
  have b1: "blocks h a = Some ((pre @ [Some y]) @ map Some ys @ post)"
    using Cons.prems by simp
  show ?case
  proof (cases "pred y")
    case True
    then show ?thesis
      by (subst FindIf_loop.simps) (simp add: ld on_element_def)
  next
    case False
    then have "FindIf_loop (on_element pred) (Ptr a (length pre)) (Ptr a (length pre + length (y # ys))) h =
               FindIf_loop (on_element pred) (Ptr a (length (pre @ [Some y])))
                 (Ptr a (length (pre @ [Some y]) + length ys)) h"
      by (subst FindIf_loop.simps) (simp add: ld on_element_def)
    with Cons.IH [OF b1] False show ?thesis by simp
  qed
qed

lemma RemoveIf_loop_live:
  "blocks h a = Some (pre @ map Some js @ map Some rest @ post) \<Longrightarrow> js \<noteq> [] \<Longrightarrow>
   \<exists>js'. RemoveIf_loop (on_element pred) (Ptr a (length pre)) (Ptr a (length pre + length js))
            (Ptr a (length pre + length js + length rest)) h =
           (Inr (Ptr a (length pre + length (filter (Not \<circ> pred) rest))),
            set_block a (pre @ map Some (filter (Not \<circ> pred) rest) @ map Some js' @ post) h) \<and>
         length js' = length js + length (filter pred rest)"
proof (induction rest arbitrary: pre js h)
  case Nil
  then have "set_block a (pre @ map Some js @ post) h = h"
    by (simp add: set_block_same)
  then show ?case
    by (intro exI [of _ js]) (simp add: RemoveIf_loop.simps)
next
  case (Cons r rs)
  from Cons.prems(2) obtain j t where js: "js = j # t" by (cases js) auto
  then have lj: "length js = Suc (length t)" by simp
  have "blocks h a = Some ((pre @ map Some js) @ Some r # map Some rs @ post)"
    using Cons.prems(1) by simp
  then have ld: "load (Ptr a (length pre + length js)) h = Inr r"
    by (rule load_at) simp
  show ?case
  proof (cases "pred r")
    case True
    have b1: "blocks h a = Some (pre @ map Some (js @ [r]) @ map Some rs @ post)"
      using Cons.prems(1) by simp
    have step: "RemoveIf_loop (on_element pred) (Ptr a (length pre)) (Ptr a (length pre + length js))
                  (Ptr a (length pre + length js + length (r # rs))) h =
                RemoveIf_loop (on_element pred) (Ptr a (length pre)) (Ptr a (length pre + length (js @ [r])))
                  (Ptr a (length pre + length (js @ [r]) + length rs)) h"
      using True by (subst RemoveIf_loop.simps) (simp add: ld on_element_def)
    from Cons.IH [OF b1] True show ?thesis
      unfolding step by auto
  next
    case False
    let ?h1 = "set_block a (pre @ Some r # map Some t @ Some r # map Some rs @ post) h"
    have "blocks h a = Some (pre @ Some j # map Some t @ Some r # map Some rs @ post)"
      using Cons.prems(1) js by simp
    then have as: "assign (Ptr a (length pre)) r h = Inr ?h1"
      by (simp add: assign_at)
    have b1: "blocks ?h1 a = Some ((pre @ [Some r]) @ map Some (t @ [r]) @ map Some rs @ post)"
      by simp
    have step: "RemoveIf_loop (on_element pred) (Ptr a (length pre)) (Ptr a (length pre + length js))
                  (Ptr a (length pre + length js + length (r # rs))) h =
                RemoveIf_loop (on_element pred) (Ptr a (length (pre @ [Some r])))
                  (Ptr a (length (pre @ [Some r]) + length (t @ [r])))
                  (Ptr a (length (pre @ [Some r]) + length (t @ [r]) + length rs)) ?h1"
      using False ld as lj by (subst RemoveIf_loop.simps) (simp add: on_element_def)
    from Cons.IH [OF b1] False js show ?thesis
      unfolding step by auto
  qed
qed

lemma destroy_range_live:
  "blocks h a = Some (pre @ map Some ys @ post) \<Longrightarrow>
   destroy_range (Ptr a (length pre)) (Ptr a (length pre + length ys)) h =
     (Inr (), set_block a (pre @ replicate (length ys) None @ post) h)"
proof (induction ys arbitrary: pre h)
  case Nil
  then show ?case by (simp add: destroy_range.simps set_block_same)
next
  case (Cons y ys)
  let ?h1 = "set_block a (pre @ None # map Some ys @ post) h"
  have d: "destroy (Ptr a (length pre)) h = Inr ?h1"
    using Cons.prems by (simp add: destroy_at)
  have b1: "blocks ?h1 a = Some ((pre @ [None]) @ map Some ys @ post)"
    by simp
  have step: "destroy_range (Ptr a (length pre)) (Ptr a (length pre + length (y # ys))) h =
              destroy_range (Ptr a (length (pre @ [None])))
                (Ptr a (length (pre @ [None]) + length ys)) ?h1"
    by (subst destroy_range.simps) (simp add: d)
  show ?case
    unfolding step Cons.IH [OF b1] by simp
qed


lemma unat_count_sub:
  assumes "k \<le> unat (c :: size_t)"
  shows "unat (c - of_nat k) = unat c - k"
proof -
  have "unat c < 2 ^ 64"
    using unsigned_less [of c] by simp
  with assms have k: "unat (of_nat k :: size_t) = k"
    by (simp add: unsigned_of_nat take_bit_nat_eq_self)
  with assms have "(of_nat k :: size_t) \<le> c"
    by (simp add: word_le_nat_alt)
  then show ?thesis
    by (simp add: unat_sub k)
qed

lemma RemoveIf_rep:
  assumes r: "rep l h xs"
  shows "\<exists>h'. RemoveIf (on_element pred) l h =
           (Inr (of_nat (length (filter pred xs))),
            l\<lparr>count := count l - of_nat (length (filter pred xs))\<rparr>, h') \<and>
           rep (l\<lparr>count := count l - of_nat (length (filter pred xs))\<rparr>) h'
             (filter (Not \<circ> pred) xs) \<and>
           (heap_ok h \<longrightarrow> heap_ok h') \<and> next_addr h' = next_addr h \<and> avail h' = avail h"
proof (cases "data l")
  case nullptr
  with r have "xs = []" "count l = 0"
    by (auto simp: rep_def unat_eq_0)
  with nullptr r show ?thesis
    by (simp add: RemoveIf_def FindIf_def begin_ptr_def end_ptr_def FindIf_loop.simps rep_def)
next
  case (Ptr a i)
  let ?post = "replicate (unat (capacity l) - length xs) None"
  from r Ptr have d: "data l = Ptr a 0"
    and b: "blocks h a = Some (map Some xs @ ?post)"
    and len: "length xs = unat (count l)" "unat (count l) \<le> unat (capacity l)"
    by (simp_all add: rep_def)
  from b have "blocks h a = Some ([] @ map Some xs @ ?post)" by simp
  from FindIf_loop_live [OF this, of pred] d len have fi:
    "FindIf (on_element pred) l h =
       Inr (if \<exists>y\<in>set xs. pred y then Ptr a (length (takeWhile (Not \<circ> pred) xs)) else nullptr)"
    by (simp add: FindIf_def begin_ptr_def end_ptr_def)
  show ?thesis
  proof (cases "\<exists>y\<in>set xs. pred y")
    case False
    then have "filter pred xs = []" "filter (Not \<circ> pred) xs = xs"
      by (auto simp: filter_empty_conv filter_id_conv)
    with fi False r show ?thesis
      by (simp add: RemoveIf_def)
  next
    case True
    then obtain k0 m rest where xs: "xs = k0 @ m # rest" and m: "pred m"
      and k0: "\<forall>y\<in>set k0. \<not> pred y"
      using split_list_first_prop [of xs pred] by blast
    from k0 m have tw: "takeWhile (Not \<circ> pred) xs = k0"
      unfolding xs by (simp add: takeWhile_append2)
    from k0 m have fn: "filter (Not \<circ> pred) xs = k0 @ filter (Not \<circ> pred) rest"
      unfolding xs by (simp add: filter_id_conv)
    from k0 m have fp: "length (filter pred xs) = Suc (length (filter pred rest))"
      unfolding xs by (simp add: filter_empty_conv)
    let ?kept = "filter (Not \<circ> pred) rest"
    have lx: "length xs = Suc (length k0 + length rest)"
      unfolding xs by simp
    have split: "length ?kept + length (filter pred rest) = length rest"
      using sum_length_filter_compl [of pred rest] by (simp add: comp_def add.commute)
    from fi True tw have placer: "FindIf (on_element pred) l h = Inr (Ptr a (length k0))"
      by simp
    have b0: "blocks h a = Some (map Some k0 @ map Some [m] @ map Some rest @ ?post)"
      using b unfolding xs by simp
    from RemoveIf_loop_live [OF b0, of pred] obtain js where
      lp: "RemoveIf_loop (on_element pred) (Ptr a (length k0)) (Ptr a (Suc (length k0)))
             (Ptr a (length xs)) h =
           (Inr (Ptr a (length k0 + length ?kept)),
            set_block a (map Some k0 @ map Some ?kept @ map Some js @ ?post) h)"
      and ljs: "length js = Suc (length (filter pred rest))"
      unfolding lx by auto
    let ?h1 = "set_block a (map Some k0 @ map Some ?kept @ map Some js @ ?post) h"
    let ?h2 = "set_block a ((map Some k0 @ map Some ?kept) @ replicate (length js) None @ ?post) ?h1"
    have e: "length k0 + length ?kept + length js = length xs"
      using ljs split lx by simp
    have "blocks ?h1 a = Some ((map Some k0 @ map Some ?kept) @ map Some js @ ?post)"
      by simp
    from destroy_range_live [OF this] e have dr:
      "destroy_range (Ptr a (length k0 + length ?kept)) (Ptr a (length xs)) ?h1 = (Inr (), ?h2)"
      by simp
    have rem: "ptr_diff (Ptr a (length xs)) (Ptr a (length k0 + length ?kept)) = int (length js)"
      using e by simp
    have kle: "length js \<le> unat (count l)"
      using e len by simp
    have c': "unat (count l - of_nat (length js)) = length (k0 @ ?kept)"
      using unat_count_sub [OF kle] e len by simp
    let ?l' = "l\<lparr>count := count l - of_nat (length js)\<rparr>"
    have "replicate (length js) None @ ?post =
            replicate (unat (capacity l) - length (k0 @ ?kept)) None"
      using e len by (simp add: replicate_add [symmetric] del: replicate_add)
    then have r': "rep ?l' ?h2 (k0 @ ?kept)"
      using d c' len e by (simp add: rep_def)
    have ok: "heap_ok h \<longrightarrow> heap_ok ?h2"
      using b by (auto intro!: heap_ok_set_block)
    have "RemoveIf (on_element pred) l h = (Inr (of_nat (length js)), ?l', ?h2)"
      using placer lp dr rem d len
      by (simp add: RemoveIf_def end_ptr_def Let_def)
    with r' ok fn fp ljs show ?thesis by simp
  qed
qed

subsection \<open>Printing\<close>

declare Print_loop.simps [simp del]

lemma Print_loop_live:
  "blocks h a = Some (pre @ map Some ys @ post) \<Longrightarrow>
   Print_loop sh (Ptr a 0) (length pre) (length pre + length ys) h out =
     Inr (out @ concat (map (\<lambda>v. sh v @ '', '') ys))"
proof (induction ys arbitrary: pre out)
  case Nil
  then show ?case by (simp add: Print_loop.simps)
next
  case (Cons y ys)
  have ld: "load (Ptr a (length pre)) h = Inr y"
    using Cons.prems by (simp add: load_at)
  have b1: "blocks h a = Some ((pre @ [Some y]) @ map Some ys @ post)"
    using Cons.prems by simp
  have step: "Print_loop sh (Ptr a 0) (length pre) (length pre + length (y # ys)) h out =
              Print_loop sh (Ptr a 0) (length (pre @ [Some y]))
                (length (pre @ [Some y]) + length ys) h (out @ sh y @ '', '')"
    by (subst Print_loop.simps) (simp add: ld)
  show ?case
    unfolding step Cons.IH [OF b1] by simp
qed

lemma Print_nonempty:
  assumes r: "rep l h xs" and ne: "xs \<noteq> []"
  shows "Print sh l h =
           Inr (''('' @ concat (map (\<lambda>v. sh v @ '', '') (butlast xs)) @ sh (last xs) @
                '')'' @ [CHR 0x0A])"
proof -
  let ?post = "replicate (unat (capacity l) - length xs) None"
  from r have len: "length xs = unat (count l)" "unat (count l) \<le> unat (capacity l)"
    by (simp_all add: rep_def)
  from ne len have "count l \<noteq> 0" by auto
  from unat_minus_one [OF this] len have c1: "unat (count l - 1) = length xs - 1"
    by simp
  from ne len have "capacity l \<noteq> 0" by auto
  with r obtain a where d: "data l = Ptr a 0" and b: "blocks h a = Some (map Some xs @ ?post)"
    by (auto simp: rep_def split: ptr.splits)
  from ne have xs: "xs = butlast xs @ [last xs]" by simp
  have "map Some xs = map Some (butlast xs) @ [Some (last xs)]"
    by (subst xs) (simp only: map_append list.map)
  with b have b0: "blocks h a = Some ([] @ map Some (butlast xs) @ Some (last xs) # ?post)"
    by simp
  from Print_loop_live [OF b0, of sh "''(''"] have lp:
    "Print_loop sh (Ptr a 0) 0 (length xs - 1) h ''('' =
       Inr (''('' @ concat (map (\<lambda>v. sh v @ '', '') (butlast xs)))"
    by simp
  from b0 have "blocks h a = Some (map Some (butlast xs) @ Some (last xs) # ?post)"
    by simp
  then have ld: "load (Ptr a (length xs - 1)) h = Inr (last xs)"
    by (rule load_at) simp
  from d c1 lp ld show ?thesis
    by (simp add: Print_def)
qed

subsection \<open>Destruction and moves\<close>

lemma rep_frame:
  "rep l h xs \<Longrightarrow> (\<And>b. data l = Ptr b 0 \<Longrightarrow> blocks h' b = blocks h b) \<Longrightarrow> rep l h' xs"
  by (auto simp: rep_def split: ptr.splits)

lemma rep_fields:
  "rep l h xs \<Longrightarrow> data l' = data l \<Longrightarrow> capacity l' = capacity l \<Longrightarrow> count l' = count l \<Longrightarrow>
   rep l' h xs"
  by (auto simp: rep_def split: ptr.splits)

lemma List_destroy_rep:
  assumes "rep l h xs"
  shows "\<exists>h'. List_destroy l h = (Inr (), l\<lparr>count := 0\<rparr>, h') \<and>
           (\<forall>b. Ptr b 0 \<noteq> data l \<longrightarrow> blocks h' b = blocks h b) \<and>
           (heap_ok h \<longrightarrow> heap_ok h')"
proof -
  from Clear_rep [OF assms] obtain h1 where
    cl: "Clear l h = (Inr (), l\<lparr>count := 0\<rparr>, h1)" and r1: "rep (l\<lparr>count := 0\<rparr>) h1 []"
    and na: "next_addr h1 = next_addr h"
    and fr: "\<forall>b. Ptr b 0 \<noteq> data l \<longrightarrow> blocks h1 b = blocks h b"
    by blast
  show ?thesis
  proof (cases "data l")
    case nullptr
    with cl fr na show ?thesis
      by (auto simp: List_destroy_def deallocate_def heap_ok_def)
  next
    case (Ptr a i)
    with r1 have i: "i = 0" and b: "blocks h1 a = Some (replicate (unat (capacity l)) None)"
      by (simp_all add: rep_def)
    from assms Ptr have "blocks h a \<noteq> None" by (auto simp: rep_def)
    with Ptr i b cl fr na show ?thesis
      by (auto simp: List_destroy_def deallocate_def heap_ok_def)
  qed
qed

subsection \<open>Copy assignment\<close>

declare copy_loop.simps [simp del]







subsection \<open>Move assignment\<close>

lemma move_assign_rep:
  assumes ne: "this \<noteq> other" and ro: "rep (objs w other) (mem w) xs"
    and rt: "rep (objs w this) (mem w) ys"
    and dj: "data (objs w other) = nullptr \<or> data (objs w this) \<noteq> data (objs w other)"
  shows "\<exists>w'. move_assign this other w = (Inr (), w') \<and>
           rep (objs w' this) (mem w') xs \<and> is_empty_state (objs w' other) \<and>
           (heap_ok (mem w) \<longrightarrow> heap_ok (mem w'))"
proof -
  let ?o = "objs w other" and ?t = "objs w this"
  let ?old = "\<lparr>data = data ?t, capacity = capacity ?t, count = count ?t,
               dataAllocator = dataAllocator ?t\<rparr>"
  let ?new = "?t\<lparr>dataAllocator := dataAllocator ?o, capacity := capacity ?o,
                 count := count ?o, data := data ?o\<rparr>"
  from rt have "rep ?old (mem w) ys" by (auto intro: rep_fields)
  from List_destroy_rep [OF this] obtain h' where
    ds: "List_destroy ?old (mem w) = (Inr (), ?old\<lparr>count := 0\<rparr>, h')"
    and fr: "\<forall>b. Ptr b 0 \<noteq> data ?t \<longrightarrow> blocks h' b = blocks (mem w) b"
    and ok: "heap_ok (mem w) \<longrightarrow> heap_ok h'"
    by auto
  have sw: "swap ?t \<lparr>data = data ?o, capacity = capacity ?o, count = count ?o,
                     dataAllocator = dataAllocator ?o\<rparr> = (?new, ?old)"
    by (simp add: swap_def)
  have ma: "move_assign this other w =
              (Inr (), w\<lparr>objs := (objs w)(other := ?o\<lparr>data := nullptr, capacity := 0, count := 0\<rparr>,
                                         this := ?new), mem := h'\<rparr>)"
    using ne sw ds by (simp add: move_assign_def List_move_def Let_def)
  have "rep ?o h' xs"
  proof (rule rep_frame [OF ro])
    fix b assume "data ?o = Ptr b 0"
    with dj fr show "blocks h' b = blocks (mem w) b" by auto
  qed
  then have "rep ?new h' xs" by (auto intro: rep_fields)
  with ma ne ok show ?thesis
    by (simp add: is_empty_state_def Count_def Capacity_def)
qed

subsection \<open>Success or no effect\<close>





lemma replicate_two: "replicate 2 x = [x, x]"
  by (simp add: numeral_2_eq_2)

lemma Remove_Object: "Remove (Object v) = RemoveIf (on_element (\<lambda>e. e = v))"
  by (intro ext) (simp add: Remove_def deref_def on_element_def [abs_def])

section \<open>Self-assignment\<close>

text \<open>
  C9. Copy-assigning a container to itself (the same object, by identity) is a no-op: the
  call returns normally and the object's fields and the whole heap, hence its elements,
  \<open>Count()\<close> and \<open>Capacity()\<close>, are what they were; nothing is destroyed or freed.
\<close>

theorem copy_assign_self: "copy_assign this this w = (Inr (), w)"
  by (simp add: copy_assign_def)

text \<open>
  C10. Move-assigning a container to itself leaves it unchanged instead of emptying it:
  the temporary takes the state, the swap gives it back, and the temporary that is
  destroyed is the empty one. The call returns normally with the object's fields and the
  heap as they were.
\<close>

theorem move_assign_self: "move_assign this this w = (Inr (), w)"
  by (simp add: move_assign_def List_move_def swap_def List_destroy_def Clear_def
        Clear_loop.simps [of nullptr] deallocate_def)

section \<open>Capacity\<close>

text \<open>
  C8. On a container holding \<open>xs\<close>, the setter \<open>Capacity(n)\<close> does nothing when
  \<open>n \<le> capacity\<close>; otherwise it reallocates to exactly \<open>n\<close> slots, or throws
  \<^verbatim>\<open>bad_alloc\<close> with the container untouched when the allocator has fewer than \<open>n\<close>
  slots. \<open>ShrinkToFit\<close> does nothing when \<open>capacity = count\<close> and otherwise reallocates to
  \<open>count\<close> slots, so that \<open>Capacity() = Count()\<close> whenever it returns. In every case the
  container still holds \<open>xs\<close>, in the same order, and \<open>Count()\<close> is unchanged.
\<close>

theorem capacity_management:
  assumes "rep l h xs" and "heap_ok h"
  shows "(\<exists>r l' h'. Capacity_set n l h = (r, l', h') \<and> rep l' h' xs \<and> Count l' = Count l \<and>
            (if n \<le> capacity l then r = Inr () \<and> l' = l \<and> h' = h
             else if unat n \<le> avail h then r = Inr () \<and> Capacity l' = n
             else r = Inl bad_alloc \<and> l' = l \<and> h' = h)) \<and>
         (\<exists>r l' h'. ShrinkToFit l h = (r, l', h') \<and> rep l' h' xs \<and> Count l' = Count l \<and>
            (if capacity l = count l then r = Inr () \<and> l' = l \<and> h' = h
             else if unat (count l) \<le> avail h then r = Inr ()
             else r = Inl bad_alloc \<and> l' = l \<and> h' = h) \<and>
            (r = Inr () \<longrightarrow> Capacity l' = Count l'))"
proof (rule conjI)
  have cl: "count l \<le> capacity l"
    using assms(1) by (simp add: rep_def word_le_nat_alt)
  show "\<exists>r l' h'. Capacity_set n l h = (r, l', h') \<and> rep l' h' xs \<and> Count l' = Count l \<and>
            (if n \<le> capacity l then r = Inr () \<and> l' = l \<and> h' = h
             else if unat n \<le> avail h then r = Inr () \<and> Capacity l' = n
             else r = Inl bad_alloc \<and> l' = l \<and> h' = h)"
  proof (cases "n \<le> capacity l")
    case True
    with assms(1) show ?thesis by (simp add: Capacity_set_def)
  next
    case False
    with cl have cn: "count l \<le> n" by simp
    show ?thesis
    proof (cases "unat n \<le> avail h")
      case True
      from Resize_rep [OF assms cn True] False True show ?thesis
        by (auto simp: Capacity_set_def Count_def Capacity_def)
    next
      case False
      with Resize_bad_alloc [OF cn, of h] \<open>\<not> n \<le> capacity l\<close> assms(1) show ?thesis
        by (simp add: Capacity_set_def)
    qed
  qed
  show "\<exists>r l' h'. ShrinkToFit l h = (r, l', h') \<and> rep l' h' xs \<and> Count l' = Count l \<and>
            (if capacity l = count l then r = Inr () \<and> l' = l \<and> h' = h
             else if unat (count l) \<le> avail h then r = Inr ()
             else r = Inl bad_alloc \<and> l' = l \<and> h' = h) \<and>
            (r = Inr () \<longrightarrow> Capacity l' = Count l')"
  proof (cases "capacity l = count l")
    case True
    with assms(1) show ?thesis by (simp add: ShrinkToFit_def Count_def Capacity_def)
  next
    case neq: False
    show ?thesis
    proof (cases "unat (count l) \<le> avail h")
      case True
      from Resize_rep [OF assms order_refl True] neq True show ?thesis
        by (auto simp: ShrinkToFit_def Count_def Capacity_def)
    next
      case False
      with Resize_bad_alloc [OF order_refl, of h l] neq assms(1) show ?thesis
        by (simp add: ShrinkToFit_def)
    qed
  qed
qed

theorem capacity_management_witness:
  "rep (list_of [1, 2, 3 :: int] 1) (heap_of [1, 2, 3 :: int] 1 10) [1, 2, 3 :: int] \<and>
   heap_ok (heap_of [1, 2, 3 :: int] 1 10) \<and>
   (\<exists>l' h'. Capacity_set 8 (list_of [1, 2, 3 :: int] 1) (heap_of [1, 2, 3 :: int] 1 10) = (Inr (), l', h') \<and>
      rep l' h' [1, 2, 3 :: int] \<and> Count l' = 3 \<and> Capacity l' = 8) \<and>
   (\<exists>l' h'. ShrinkToFit (list_of [1, 2, 3 :: int] 1) (heap_of [1, 2, 3 :: int] 1 10) = (Inr (), l', h') \<and>
      rep l' h' [1, 2, 3 :: int] \<and> Count l' = 3 \<and> Capacity l' = 3)"
proof -
  have r: "rep (list_of [1, 2, 3 :: int] 1) (heap_of [1, 2, 3 :: int] 1 10) [1, 2, 3 :: int]"
    by (rule rep_list_of) simp
  have ok: "heap_ok (heap_of [1, 2, 3 :: int] 1 10)"
    by (rule heap_ok_heap_of)
  from capacity_management [OF r ok, of 8] r ok show ?thesis
    by (auto simp: list_of_def heap_of_def Count_def Capacity_def)
qed

section \<open>Insertion order\<close>

text \<open>
  C7, as stated, fails when an argument of \<open>Add\<close> refers to an element of the list. After
  \<open>Add(5)\<close> on a new list, \<open>l[0]\<close> is slot 0 of block 0 and the block is full. \<open>Add(l[0])\<close>
  then grows the list first: \<open>Resize\<close> relocates the element and frees block 0, and the
  constructor reads its argument from the freed block. \<open>Count()\<close> is 2, and \<open>[1]\<close> is not
  the value added.
\<close>

theorem add_own_element:
  "fst (Add (Build (Object 5)) (List_new ()) (empty_heap 9 :: int heap)) = Inr () \<and>
   subscript_ref (fst (snd (Add (Build (Object 5)) (List_new ()) (empty_heap 9 :: int heap)))) 0 =
     (Slot (Ptr 0 0) :: int cref) \<and>
   fst (Add_all [Build (Object 5), Build (Slot (Ptr 0 0))] (List_new ())
          (empty_heap 9 :: int heap)) = Inl (UB OutOfBlock) \<and>
   Count (fst (snd (Add_all [Build (Object 5), Build (Slot (Ptr 0 0))] (List_new ())
          (empty_heap 9 :: int heap)))) = 2 \<and>
   subscript
     (fst (snd (Add_all [Build (Object 5), Build (Slot (Ptr 0 0))] (List_new ())
          (empty_heap 9 :: int heap))))
     (snd (snd (Add_all [Build (Object 5), Build (Slot (Ptr 0 0))] (List_new ())
          (empty_heap 9 :: int heap)))) 1 = Inl (UB Uninitialised)"
proof -
  let ?l1 = "\<lparr>data = Ptr 0 0, capacity = 1, count = 1, dataAllocator = ()\<rparr>"
  let ?h1 = "set_block 0 [Some (5 :: int)]
               \<lparr>blocks = (\<lambda>a. None)(0 \<mapsto> [None]), next_addr = 1, avail = 8\<rparr>"
  let ?l2 = "\<lparr>data = Ptr 1 0, capacity = 2, count = 2, dataAllocator = ()\<rparr>"
  let ?h2 = "\<lparr>blocks = (\<lambda>a. None)(1 \<mapsto> [Some (5 :: int), None]), next_addr = 2,
               avail = 7\<rparr>"
  have a1: "Add (Build (Object 5)) (List_new ()) (empty_heap 9 :: int heap) = (Inr (), ?l1, ?h1)"
    by (simp add: Add_def Capacity_set_def Resize_def allocate_def Resize_loop.simps
          deallocate_def List_new_def empty_heap_def deref_def construct_def slot_at_def
          put_slot_def Let_def)
  have rz: "Resize 2 ?l1 ?h1 = (Inr (), ?l1\<lparr>data := Ptr 1 0, capacity := 2\<rparr>,
              ?h2)"
    by (simp add: Resize_def allocate_def Resize_loop.simps load_def construct_def destroy_def
          slot_at_def put_slot_def set_block_def deallocate_def replicate_two fun_upd_twist)
  have a2: "Add (Build (Slot (Ptr 0 0))) ?l1 ?h1 = (Inl (UB OutOfBlock), ?l2, ?h2)"
  proof -
    have full: "capacity ?l1 = count ?l1" by simp
    have n: "max (2 * capacity ?l1) 1 = 2" by simp
    have cs: "Capacity_set 2 ?l1 ?h1 = (Inr (), ?l1\<lparr>data := Ptr 1 0, capacity := 2\<rparr>, ?h2)"
      using rz by (simp add: Capacity_set_def word_le_nat_alt)
    show ?thesis
      unfolding Add_full [OF full] n cs
      by (simp add: deref_def load_def slot_at_def Let_def)
  qed
  have aa: "Add_all [Build (Object 5), Build (Slot (Ptr 0 0))] (List_new ())
              (empty_heap 9 :: int heap) = (Inl (UB OutOfBlock), ?l2, ?h2)"
    by (simp only: Add_all.simps a1 a2 prod.case sum.case)
  show ?thesis
    unfolding aa a1
    by (simp add: subscript_ref_def Count_def subscript_def load_def slot_at_def)
qed

text \<open>
  C7, amended. Starting from an empty list (newly constructed, or emptied and still owning
  its block), \<open>n\<close> calls of \<open>Add\<close> whose arguments refer to no element of the list and on
  which the constructor does not throw return normally and leave \<open>Count() = n\<close>, and the
  unchecked access \<open>[i]\<close> gives the \<open>i\<close>-th value added, for every \<open>i < n\<close>. The allocator
  must not fail: \<open>3 * n\<close> slots, counting those the list already owns, are enough for the
  doubling growth, which keeps the old block until the elements are relocated; and
  \<open>n < 2\<^sup>6\<^sup>3\<close>, so that doubling the capacity does not wrap around in \<^verbatim>\<open>size_t\<close>.
\<close>

theorem add_sequence:
  assumes "rep l h []" and "heap_ok h"
    and "3 * length vs \<le> avail h + unat (capacity l)" and "length vs < 2 ^ 63"
  shows "\<exists>l' h'. Add_all (map (\<lambda>v. Build (Object v)) vs) l h = (Inr (), l', h') \<and>
           Count l' = of_nat (length vs) \<and>
           (\<forall>i<length vs. subscript l' h' (of_nat i) = Inr (vs ! i))"
proof -
  have "\<exists>l' h'. Add_all (map (\<lambda>v. Build (Object v)) vs) l h = (Inr (), l', h') \<and>
          rep l' h' ([] @ vs)"
    by (rule Add_all_rep [OF assms(1,2)]) (use assms(3,4) in simp_all)
  then obtain l' h' where
    a: "Add_all (map (\<lambda>v. Build (Object v)) vs) l h = (Inr (), l', h')"
    and "rep l' h' ([] @ vs)"
    by blast
  then have r: "rep l' h' vs" by simp
  have "\<forall>i<length vs. subscript l' h' (of_nat i) = Inr (vs ! i)"
    using rep_subscript [OF r] by blast
  with a rep_Count [OF r] show ?thesis by blast
qed

theorem add_sequence_witness:
  "rep (List_new ()) (empty_heap 9 :: int heap) [] \<and>
   heap_ok (empty_heap 9 :: int heap) \<and>
   (\<exists>l' h'. Add_all [Build (Object 10), Build (Object 20), Build (Object 30)] (List_new ())
              (empty_heap 9 :: int heap) = (Inr (), l', h') \<and>
      Count l' = 3 \<and> subscript l' h' 0 = Inr 10 \<and> subscript l' h' 1 = Inr 20 \<and>
      subscript l' h' 2 = Inr 30)"
proof -
  have r: "rep (List_new ()) (empty_heap 9 :: int heap) []"
    by (rule rep_List_new)
  have ok: "heap_ok (empty_heap 9 :: int heap)"
    by (rule heap_ok_empty_heap)
  have h2: "3 * length [10, 20, 30 :: int] \<le>
              avail (empty_heap 9 :: int heap) + unat (capacity (List_new ()))"
    by (simp add: empty_heap_def List_new_def)
  have h3: "length [10, 20, 30 :: int] < 2 ^ 63"
    by simp
  from add_sequence [OF r ok h2 h3] obtain l' h' where
    a: "Add_all (map (\<lambda>v. Build (Object v)) [10, 20, 30 :: int]) (List_new ())
          (empty_heap 9) = (Inr (), l', h')"
    and c: "Count l' = of_nat (length [10, 20, 30 :: int])"
    and s: "\<forall>i<length [10, 20, 30 :: int]. subscript l' h' (of_nat i) = Inr ([10, 20, 30] ! i)"
    by blast
  from s have "subscript l' h' (of_nat 0) = Inr 10" "subscript l' h' (of_nat 1) = Inr 20"
    "subscript l' h' (of_nat 2) = Inr 30"
    by (simp_all add: All_less_Suc numeral_3_eq_3)
  with r ok a c show ?thesis by simp
qed

section \<open>Removal by index\<close>

text \<open>
  C5. On a container holding \<open>xs\<close>, \<open>RemoveAt(index)\<close> throws \<^verbatim>\<open>out_of_range\<close> exactly when
  \<open>index \<ge> count\<close>, and then the object and the heap are unchanged. When \<open>index < count\<close>
  it returns normally and the container holds \<open>xs\<close> without its element at \<open>index\<close>: the
  elements after it have moved one slot left in their order, \<open>Count()\<close> is one less and the
  capacity is unchanged.
\<close>

theorem remove_at:
  assumes "rep l h xs"
  shows "if count l \<le> index
         then RemoveAt index l h = (Inl (out_of_range index), l, h)
         else \<exists>l' h'. RemoveAt index l h = (Inr (), l', h') \<and>
                rep l' h' (take (unat index) xs @ drop (Suc (unat index)) xs) \<and>
                Count l' = Count l - 1 \<and> Capacity l' = Capacity l"
proof (cases "count l \<le> index")
  case True
  then show ?thesis by (simp add: RemoveAt_def)
next
  case False
  then have "index < count l" by (simp add: not_le)
  from RemoveAt_rep [OF assms this] False show ?thesis
    by (auto simp: Count_def Capacity_def)
qed

theorem remove_at_witness:
  "rep (list_of [10, 20, 30, 40 :: int] 0) (heap_of [10, 20, 30, 40 :: int] 0 0)
     [10, 20, 30, 40 :: int] \<and>
   RemoveAt 10 (list_of [10, 20, 30, 40 :: int] 0) (heap_of [10, 20, 30, 40 :: int] 0 0) =
     (Inl (out_of_range 10), list_of [10, 20, 30, 40 :: int] 0,
      heap_of [10, 20, 30, 40 :: int] 0 0) \<and>
   (\<exists>l' h'. RemoveAt 2 (list_of [10, 20, 30, 40 :: int] 0)
              (heap_of [10, 20, 30, 40 :: int] 0 0) = (Inr (), l', h') \<and>
      rep l' h' [10, 20, 40 :: int] \<and> Count l' = 3)"
proof -
  have r: "rep (list_of [10, 20, 30, 40 :: int] 0) (heap_of [10, 20, 30, 40 :: int] 0 0)
             [10, 20, 30, 40 :: int]"
    by (rule rep_list_of) simp
  from remove_at [OF r, of 10] remove_at [OF r, of 2] r show ?thesis
    by (auto simp: list_of_def Count_def)
qed

section \<open>Removal by predicate and by value\<close>

text \<open>
  C4. On a container holding \<open>xs\<close>, \<open>RemoveIf(pred)\<close>, for a predicate that is a function of
  the element, returns the number of elements of \<open>xs\<close> that satisfy \<open>pred\<close>, \<open>Count()\<close>
  decreases by that number, and the container holds the elements that do not satisfy
  \<open>pred\<close>, in their original order. On \<open>[1, 2, 3, 4, 5]\<close> with a predicate matching 2 and 4
  the result is \<open>[1, 3, 5]\<close>, the return value 2 and the count 3, as checked after the
  theorem.
\<close>

theorem remove_if:
  assumes "rep l h xs"
  shows "\<exists>n l' h'. RemoveIf (on_element pred) l h = (Inr n, l', h') \<and>
           unat n = length (filter pred xs) \<and>
           rep l' h' (filter (Not \<circ> pred) xs) \<and>
           Count l' = Count l - n"
proof -
  from assms have "length xs = unat (count l)" by (simp add: rep_def)
  moreover have "unat (count l) < 2 ^ 64"
    using unsigned_less [of "count l"] by simp
  moreover have "length (filter pred xs) \<le> length xs" by simp
  ultimately have "unat (of_nat (length (filter pred xs)) :: size_t) = length (filter pred xs)"
    by (simp add: unsigned_of_nat take_bit_nat_eq_self)
  with RemoveIf_rep [OF assms, of pred] show ?thesis
    by (auto simp: Count_def)
qed

theorem remove_if_witness:
  "rep (list_of [1, 2, 3, 4, 5 :: int] 0) (heap_of [1, 2, 3, 4, 5 :: int] 0 0)
     [1, 2, 3, 4, 5 :: int] \<and>
   (\<exists>l' h'. RemoveIf (on_element (\<lambda>x. x = 2 \<or> x = 4)) (list_of [1, 2, 3, 4, 5 :: int] 0)
              (heap_of [1, 2, 3, 4, 5 :: int] 0 0) = (Inr 2, l', h') \<and>
      rep l' h' [1, 3, 5 :: int] \<and> Count l' = 3)"
proof -
  have r: "rep (list_of [1, 2, 3, 4, 5 :: int] 0) (heap_of [1, 2, 3, 4, 5 :: int] 0 0)
             [1, 2, 3, 4, 5 :: int]"
    by (rule rep_list_of) simp
  from remove_if [OF r, of "\<lambda>x. x = 2 \<or> x = 4"] obtain n l' h' where
    a: "RemoveIf (on_element (\<lambda>x. x = 2 \<or> x = 4)) (list_of [1, 2, 3, 4, 5 :: int] 0)
          (heap_of [1, 2, 3, 4, 5 :: int] 0 0) = (Inr n, l', h')"
    and n: "unat n = 2" and r': "rep l' h' [1, 3, 5 :: int]"
    and c: "Count l' = Count (list_of [1, 2, 3, 4, 5 :: int] 0) - n"
    by auto
  from n have "n = 2" by (simp add: word_unat_eq_iff)
  with r a r' c show ?thesis
    by (auto simp: list_of_def Count_def)
qed

text \<open>
  C1. \<open>Remove(v)\<close> is \<open>RemoveIf\<close> with the predicate \<open>e = v\<close>, so it removes every element
  equal to \<open>v\<close>, not only the first: on \<open>[1, 2, 1]\<close>, \<open>Remove(1)\<close> returns 2 and leaves
  \<open>[2]\<close>, and \<open>Count()\<close> goes from 3 to 1.
\<close>

theorem remove_duplicates_all:
  "\<exists>l' h'. Remove (Object 1) (list_of [1, 2, 1 :: int] 0) (heap_of [1, 2, 1 :: int] 0 0) =
             (Inr 2, l', h') \<and>
     rep l' h' [2 :: int] \<and> Count (list_of [1, 2, 1 :: int] 0) = 3 \<and> Count l' = 1"
proof -
  have r: "rep (list_of [1, 2, 1 :: int] 0) (heap_of [1, 2, 1 :: int] 0 0) [1, 2, 1 :: int]"
    by (rule rep_list_of) simp
  from RemoveIf_rep [OF r, of "\<lambda>e. e = 1"] show ?thesis
    by (auto simp: Remove_Object list_of_def Count_def)
qed

text \<open>
  When the argument of \<open>Remove\<close> is an element of the list, the comparisons follow the
  reference: on \<open>[1, 2, 1, 2]\<close>, \<open>Remove(l[0])\<close> first compares with 1 and, once 2 has been
  moved into slot 0, with 2. It returns 2 and leaves \<open>[2, 1]\<close>.
\<close>

lemma remove_own_element:
  "Remove (subscript_ref (list_of [1, 2, 1, 2 :: int] 0) 0) (list_of [1, 2, 1, 2 :: int] 0)
     (heap_of [1, 2, 1, 2 :: int] 0 0) =
   (Inr 2, (list_of [1, 2, 1, 2 :: int] 0)\<lparr>count := 2\<rparr>,
    set_block 0 [Some 2, Some 1, None, None] (heap_of [1, 2, 1, 2 :: int] 0 0))"
  by (simp add: Remove_def RemoveIf_def FindIf_def begin_ptr_def end_ptr_def subscript_ref_def
        list_of_def heap_of_def FindIf_loop.simps RemoveIf_loop.simps destroy_range.simps
        deref_def load_def assign_def destroy_def slot_at_def put_slot_def set_block_def
        Let_def)

section \<open>Printing\<close>

text \<open>
  C3. \<open>Print\<close> on the empty list: the loop bound \<open>count - 1\<close> wraps around to the largest
  \<^verbatim>\<open>size_t\<close>, so the loop runs and its first step reads \<open>data[0]\<close> through the null
  pointer. (On a list that is not empty, \<open>Print\<close> reads the live elements only and
  writes them between parentheses, separated by commas: \<open>Print_nonempty\<close>.)
\<close>

theorem print_empty: "Print sh (List_new al) h = Inl (UB NullDeref)"
  by (simp add: Print_def List_new_def Print_loop.simps [of _ _ 0] load_def slot_at_def)

section \<open>Moves\<close>

text \<open>
  C6. Let \<open>other\<close> hold \<open>xs\<close> and let \<open>this\<close> be a different object. After
  move-constructing \<open>this\<close> from \<open>other\<close>, \<open>this\<close> holds \<open>xs\<close>, in the same order, and
  \<open>other\<close> is in the empty state (count 0, capacity 0, null storage). The same holds after
  move-assigning \<open>other\<close> to \<open>this\<close>, which returns normally, when \<open>this\<close> held a list of its
  own in storage that is not \<open>other\<close>'s.
\<close>

theorem move_correct:
  assumes "this \<noteq> other" and "rep (objs w other) (mem w) xs"
  shows "(rep (objs (move_construct this other w) this) (mem (move_construct this other w)) xs \<and>
          is_empty_state (objs (move_construct this other w) other)) \<and>
         (rep (objs w this) (mem w) ys \<and>
          (data (objs w other) = nullptr \<or> data (objs w this) \<noteq> data (objs w other)) \<longrightarrow>
          (\<exists>w'. move_assign this other w = (Inr (), w') \<and>
             rep (objs w' this) (mem w') xs \<and> is_empty_state (objs w' other)))"
proof (intro conjI impI)
  show "rep (objs (move_construct this other w) this) (mem (move_construct this other w)) xs"
    using assms(1) by (auto simp: move_construct_def List_move_def intro: rep_fields [OF assms(2)])
  show "is_empty_state (objs (move_construct this other w) other)"
    using assms(1)
    by (simp add: move_construct_def List_move_def is_empty_state_def Count_def Capacity_def)
next
  assume "rep (objs w this) (mem w) ys \<and>
          (data (objs w other) = nullptr \<or> data (objs w this) \<noteq> data (objs w other))"
  then have "rep (objs w this) (mem w) ys"
    and "data (objs w other) = nullptr \<or> data (objs w this) \<noteq> data (objs w other)"
    by simp_all
  from move_assign_rep [OF assms this]
  show "\<exists>w'. move_assign this other w = (Inr (), w') \<and>
          rep (objs w' this) (mem w') xs \<and> is_empty_state (objs w' other)"
    by blast
qed

theorem move_correct_witness:
  "rep (objs two_lists 1) (mem two_lists) [7, 8, 9] \<and>
   rep (objs two_lists 0) (mem two_lists) [1, 2] \<and>
   rep (objs (move_construct 2 1 two_lists) 2) (mem (move_construct 2 1 two_lists)) [7, 8, 9] \<and>
   is_empty_state (objs (move_construct 2 1 two_lists) 1) \<and>
   (\<exists>w'. move_assign 0 1 two_lists = (Inr (), w') \<and>
      rep (objs w' 0) (mem w') [7, 8, 9] \<and> is_empty_state (objs w' 1))"
proof -
  have r1: "rep (objs two_lists 1) (mem two_lists) [7, 8, 9]"
    by (simp add: rep_def two_lists_def)
  have r0: "rep (objs two_lists 0) (mem two_lists) [1, 2]"
    by (simp add: rep_def two_lists_def)
  have d: "data (objs two_lists 1) = nullptr \<or> data (objs two_lists 0) \<noteq> data (objs two_lists 1)"
    by (simp add: two_lists_def)
  have n: "(2 :: nat) \<noteq> 1" "(0 :: nat) \<noteq> 1" by simp_all
  from move_correct [OF n(1) r1, of "[]"] move_correct [OF n(2) r1, of "[1, 2]"] r0 r1 d
  show ?thesis by blast
qed

section \<open>Failure and observable state\<close>




end
